theory Spec2Isabelle
  imports Complex_Main "HOL-Library.Word"
begin

section \<open>Decoded images and the local similarity methods\<close>

text \<open>
  The detection module reads images through the jimp library.  A decoded bitmap is a
  width, a height and a colour for every coordinate; the channel values are bytes, so an
  index into a 256-bin histogram is always in range.  Decoding, resizing and the
  greyscale conversion belong to the library and are parameters of the model.
  JavaScript numbers are IEEE doubles; the model computes with the reals.
\<close>

type_synonym byte = "8 word"
type_synonym pixel = "byte \<times> byte \<times> byte"

record bitmap =
  bwidth :: nat
  bheight :: nat
  pixelAt :: "nat \<Rightarrow> nat \<Rightarrow> pixel"

record jimp =
  jread :: "string \<Rightarrow> bitmap option"
  resize :: "nat \<Rightarrow> nat \<Rightarrow> bitmap \<Rightarrow> bitmap"
  greyscale :: "bitmap \<Rightarrow> bitmap"

text \<open>\<open>image.scan(0, 0, w, h, f)\<close> visits the rows top to bottom, each row left to right.\<close>

definition scan :: "bitmap \<Rightarrow> nat \<Rightarrow> nat \<Rightarrow> pixel list" where
  "scan bm w h = concat (map (\<lambda>y. map (\<lambda>x. pixelAt bm x y) [0..<w]) [0..<h])"

fun chanR :: "pixel \<Rightarrow> byte" where "chanR (r, g, b) = r"
fun chanG :: "pixel \<Rightarrow> byte" where "chanG (r, g, b) = g"
fun chanB :: "pixel \<Rightarrow> byte" where "chanB (r, g, b) = b"

subsection \<open>Average hash\<close>

definition hashOfBitmap :: "bitmap \<Rightarrow> string" where
  "hashOfBitmap bm =
     (let samples = map (\<lambda>p. real (unat (chanR p))) (scan bm 8 8);
          average = sum_list samples / real (length samples)
      in map (\<lambda>s. if s > average then CHR ''1'' else CHR ''0'') samples)"

definition generatePerceptualHash :: "jimp \<Rightarrow> string \<Rightarrow> string option" where
  "generatePerceptualHash lib imagePath =
     (case jread lib imagePath of
        None \<Rightarrow> None
      | Some img \<Rightarrow> Some (hashOfBitmap (greyscale lib (resize lib 8 8 img))))"

definition calculateHashSimilarity :: "string \<Rightarrow> string \<Rightarrow> real" where
  "calculateHashSimilarity hash1 hash2 =
     (if length hash1 \<noteq> length hash2 then 0
      else real (length (filter (\<lambda>i. hash1 ! i = hash2 ! i) [0..<length hash1]))
             / real (length hash1))"

text \<open>The \<open>catch\<close> of \<open>calculatePerceptualHash\<close> turns a decoding failure into 0.\<close>

definition calculatePerceptualHash :: "jimp \<Rightarrow> string \<Rightarrow> string \<Rightarrow> real" where
  "calculatePerceptualHash lib imagePath1 imagePath2 =
     (case generatePerceptualHash lib imagePath1 of
        None \<Rightarrow> 0
      | Some hash1 \<Rightarrow>
          (case generatePerceptualHash lib imagePath2 of
             None \<Rightarrow> 0
           | Some hash2 \<Rightarrow> calculateHashSimilarity hash1 hash2))"

subsection \<open>Structural distance\<close>

fun pixelDiff :: "pixel \<Rightarrow> pixel \<Rightarrow> real" where
  "pixelDiff (r1, g1, b1) (r2, g2, b2) =
     sqrt ((real (unat r1) - real (unat r2))\<^sup>2 + (real (unat g1) - real (unat g2))\<^sup>2
           + (real (unat b1) - real (unat b2))\<^sup>2)"

definition structuralOfBitmaps :: "bitmap \<Rightarrow> bitmap \<Rightarrow> real" where
  "structuralOfBitmaps image1 image2 =
     (let diffs = map (\<lambda>(p1, p2). pixelDiff p1 p2) (zip (scan image1 64 64) (scan image2 64 64));
          totalDiff = sum_list diffs;
          pixelCount = real (length diffs);
          avgDiff = totalDiff / pixelCount;
          maxDiff = sqrt (3 * 255\<^sup>2)
      in 1 - avgDiff / maxDiff)"

definition calculateStructuralSimilarity :: "jimp \<Rightarrow> string \<Rightarrow> string \<Rightarrow> real" where
  "calculateStructuralSimilarity lib imagePath1 imagePath2 =
     (case jread lib imagePath1 of
        None \<Rightarrow> 0
      | Some image1 \<Rightarrow>
          (case jread lib imagePath2 of
             None \<Rightarrow> 0
           | Some image2 \<Rightarrow>
               structuralOfBitmaps (resize lib 64 64 image1) (resize lib 64 64 image2)))"

subsection \<open>Colour histograms\<close>

record histogram =
  binsR :: "nat list"
  binsG :: "nat list"
  binsB :: "nat list"

definition bump :: "nat list \<Rightarrow> nat \<Rightarrow> nat list" where
  "bump bins i = bins[i := bins ! i + 1]"

definition emptyHistogram :: histogram where
  "emptyHistogram = \<lparr>binsR = replicate 256 0, binsG = replicate 256 0, binsB = replicate 256 0\<rparr>"

definition countPixel :: "histogram \<Rightarrow> pixel \<Rightarrow> histogram" where
  "countPixel h p = \<lparr>binsR = bump (binsR h) (unat (chanR p)),
                     binsG = bump (binsG h) (unat (chanG p)),
                     binsB = bump (binsB h) (unat (chanB p))\<rparr>"

definition histogramOfBitmap :: "bitmap \<Rightarrow> histogram" where
  "histogramOfBitmap img = foldl countPixel emptyHistogram (scan img (bwidth img) (bheight img))"

definition generateHistogram :: "jimp \<Rightarrow> string \<Rightarrow> histogram option" where
  "generateHistogram lib imagePath = map_option histogramOfBitmap (jread lib imagePath)"

definition correlation :: "nat list \<Rightarrow> nat list \<Rightarrow> nat" where
  "correlation bins1 bins2 = sum_list (map (\<lambda>i. min (bins1 ! i) (bins2 ! i)) [0..<256])"

definition compareHistograms :: "histogram \<Rightarrow> histogram \<Rightarrow> real" where
  "compareHistograms hist1 hist2 =
     real (correlation (binsR hist1) (binsR hist2) + correlation (binsG hist1) (binsG hist2)
           + correlation (binsB hist1) (binsB hist2)) / (3 * 256)"

definition calculateHistogramSimilarity :: "jimp \<Rightarrow> string \<Rightarrow> string \<Rightarrow> real" where
  "calculateHistogramSimilarity lib imagePath1 imagePath2 =
     (case generateHistogram lib imagePath1 of
        None \<Rightarrow> 0
      | Some hist1 \<Rightarrow>
          (case generateHistogram lib imagePath2 of
             None \<Rightarrow> 0
           | Some hist2 \<Rightarrow> compareHistograms hist1 hist2))"

text \<open>
  The histogram intersection as the specification words it: per channel the sum of the
  bin-wise minima divided by the number of samples, averaged over the three channels.
\<close>

definition histogramIntersectionSpec :: "histogram \<Rightarrow> histogram \<Rightarrow> nat \<Rightarrow> real" where
  "histogramIntersectionSpec hist1 hist2 totalSamples =
     (real (correlation (binsR hist1) (binsR hist2)) / real totalSamples
      + real (correlation (binsG hist1) (binsG hist2)) / real totalSamples
      + real (correlation (binsB hist1) (binsB hist2)) / real totalSamples) / 3"

subsection \<open>A two-by-two image\<close>

definition tinyBitmap :: bitmap where
  "tinyBitmap = \<lparr>bwidth = 2, bheight = 2,
                  pixelAt = (\<lambda>x y. if x = 0 then (200, 10, 10) else (10, 10, 200))\<rparr>"

definition tinyLib :: jimp where
  "tinyLib = \<lparr>jread = (\<lambda>p. if p = ''a.png'' then Some tinyBitmap else None),
               resize = (\<lambda>w h bm. bm\<lparr>bwidth := w, bheight := h\<rparr>),
               greyscale = (\<lambda>bm. bm)\<rparr>"

section \<open>Image records, duplicate groups and the detection pipeline\<close>

text \<open>
  An image record as the scanner supplies it (\<open>processImage\<close>), with the fields the
  detection pass adds to the same object: the quality score, the recommendation flag and
  its reason.  A field that JavaScript leaves \<open>undefined\<close> is \<open>None\<close>; an unset
  \<open>recommended\<close> is falsy, hence \<open>False\<close>.  Times are milliseconds since the epoch.
\<close>

datatype error = Error string

record image =
  path :: string
  name :: string
  size_bytes :: nat
  modified :: int
  width :: nat
  height :: nat
  format :: "string option"
  hash :: string
  resolution :: nat
  qualityScore :: "real option"
  recommended :: bool
  recommendationReason :: "string option"

record duplicate_group =
  gtype :: string
  images :: "image list"
  gsimilarity :: real
  gconfidence :: string
  detectionMethod :: string
  safetyVerified :: bool

record score =
  similarity :: real
  confidence :: real

record vote = score +
  provider :: string

record consensus = score +
  primaryProvider :: string
  providers :: "string list"
  individualResults :: "vote list"

record local_result = score +
  results :: "real list"

text \<open>
  The part of \<open>AI_CONFIG\<close> that the detection reads: the three credentials, which are
  taken from the process environment, and the similarity threshold.
\<close>

record ai_config =
  googleVisionApiKey :: string
  azureVisionApiKey :: string
  awsAccessKeyId :: string

definition similarityThreshold :: real where
  "similarityThreshold = 0.92"

text \<open>
  The remote providers and the key-point matcher are collaborators: each is a function
  of the pair that yields a feature similarity or a fault.
\<close>

record collaborators =
  googleFeatureSimilarity :: "image \<Rightarrow> image \<Rightarrow> error + real"
  azureFeatureSimilarity :: "image \<Rightarrow> image \<Rightarrow> error + real"
  awsFeatureSimilarity :: "image \<Rightarrow> image \<Rightarrow> error + real"
  featureMatching :: "string \<Rightarrow> string \<Rightarrow> real"
  consensusFault :: "image \<Rightarrow> image \<Rightarrow> error option"
  analysisBackupFault :: "error option"
  imageLib :: jimp

subsection \<open>Exact groups\<close>

text \<open>A JavaScript \<open>Map\<close> keeps its keys in insertion order: an association list.\<close>

fun pushToKey :: "string \<Rightarrow> 'a \<Rightarrow> (string \<times> 'a list) list \<Rightarrow> (string \<times> 'a list) list" where
  "pushToKey k img [] = [(k, [img])]"
| "pushToKey k img ((k', g) # rest) =
     (if k = k' then (k', g @ [img]) # rest else (k', g) # pushToKey k img rest)"

definition groupByHash :: "image list \<Rightarrow> (string \<times> image list) list" where
  "groupByHash imgs = foldl (\<lambda>hashMap img. pushToKey (hash img) img hashMap) [] imgs"

definition exactGroup :: "image list \<Rightarrow> duplicate_group" where
  "exactGroup imageGroup =
     \<lparr>gtype = ''exact'', images = imageGroup, gsimilarity = 1, gconfidence = ''absolute'',
      detectionMethod = ''file-hash'', safetyVerified = False\<rparr>"

text \<open>
  The loop over the hash groups: a group of more than one image is an exact group, the
  single image of any other group goes on to the similarity phase.
\<close>

fun splitHashGroups :: "(string \<times> image list) list \<Rightarrow> duplicate_group list \<times> image list" where
  "splitHashGroups [] = ([], [])"
| "splitHashGroups ((k, imageGroup) # rest) =
     (let (duplicateGroups, uniqueImages) = splitHashGroups rest
      in if length imageGroup > 1 then (exactGroup imageGroup # duplicateGroups, uniqueImages)
         else (duplicateGroups, take 1 imageGroup @ uniqueImages))"

subsection \<open>Consensus of the providers\<close>

definition compareWithGoogleVision :: "collaborators \<Rightarrow> image \<Rightarrow> image \<Rightarrow> error + score" where
  "compareWithGoogleVision env image1 image2 =
     (case googleFeatureSimilarity env image1 image2 of
        Inl e \<Rightarrow> Inl e
      | Inr s \<Rightarrow> Inr \<lparr>similarity = s, confidence = 0.95\<rparr>)"

definition compareWithAzureVision :: "collaborators \<Rightarrow> image \<Rightarrow> image \<Rightarrow> error + score" where
  "compareWithAzureVision env image1 image2 =
     (case azureFeatureSimilarity env image1 image2 of
        Inl e \<Rightarrow> Inl e
      | Inr s \<Rightarrow> Inr \<lparr>similarity = s, confidence = 0.93\<rparr>)"

definition compareWithAWSRekognition :: "collaborators \<Rightarrow> image \<Rightarrow> image \<Rightarrow> error + score" where
  "compareWithAWSRekognition env image1 image2 =
     (case awsFeatureSimilarity env image1 image2 of
        Inl e \<Rightarrow> Inl e
      | Inr s \<Rightarrow> Inr \<lparr>similarity = s, confidence = 0.91\<rparr>)"

text \<open>
  \<open>compareWithAdvancedLocal\<close> runs four methods, each under its own \<open>catch\<close> that
  turns a fault into 0, and weighs the four results.
\<close>

definition localWeights :: "real list" where
  "localWeights = [0.3, 0.3, 0.2, 0.2]"

definition weighLocal :: "(error + real) list \<Rightarrow> local_result" where
  "weighLocal outcomes =
     (let rs = map (\<lambda>outcome. case outcome of Inl e \<Rightarrow> 0 | Inr v \<Rightarrow> v) outcomes;
          weightedSimilarity = foldl (\<lambda>sum (result, w). sum + result * w) 0 (zip rs localWeights)
      in \<lparr>similarity = weightedSimilarity, confidence = 0.8, results = rs\<rparr>)"


definition localMethods :: "collaborators \<Rightarrow> image \<Rightarrow> image \<Rightarrow> (error + real) list" where
  "localMethods env image1 image2 =
     [Inr (calculatePerceptualHash (imageLib env) (path image1) (path image2)),
      Inr (calculateStructuralSimilarity (imageLib env) (path image1) (path image2)),
      Inr (calculateHistogramSimilarity (imageLib env) (path image1) (path image2)),
      Inr (featureMatching env (path image1) (path image2))]"

definition compareWithAdvancedLocal :: "collaborators \<Rightarrow> image \<Rightarrow> image \<Rightarrow> local_result" where
  "compareWithAdvancedLocal env image1 image2 = weighLocal (localMethods env image1 image2)"

definition weightOf :: "string \<Rightarrow> real" where
  "weightOf p =
     (if p = ''google'' then 0.4 else if p = ''azure'' then 0.35 else if p = ''aws'' then 0.35
      else if p = ''local-advanced'' then 0.2 else 0.1)"

definition toVote :: "string \<Rightarrow> score \<Rightarrow> vote" where
  "toVote p s = \<lparr>similarity = similarity s, confidence = confidence s, provider = p\<rparr>"

text \<open>
  The votes in the order in which \<open>getMultiProviderConsensus\<close> collects them: a provider
  votes when its credential is not the placeholder and its call does not throw.
\<close>

definition providerVotes :: "string \<Rightarrow> bool \<Rightarrow> error + score \<Rightarrow> vote list" where
  "providerVotes p configured outcome =
     (if configured then (case outcome of Inl e \<Rightarrow> [] | Inr s \<Rightarrow> [toVote p s]) else [])"

definition weighVotes :: "string \<Rightarrow> vote list \<Rightarrow> consensus" where
  "weighVotes primary votes =
     (if length votes = 0
      then \<lparr>similarity = 0, confidence = 0, primaryProvider = ''none'', providers = [],
            individualResults = []\<rparr>
      else
        (let (weightedSimilarity, weightedConfidence, totalWeight) =
               foldl (\<lambda>(ws, wc, tw) result.
                        (let weight = weightOf (provider result)
                         in (ws + similarity result * weight, wc + confidence result * weight,
                             tw + weight)))
                 (0, 0, 0) votes
         in \<lparr>similarity = weightedSimilarity / totalWeight,
              confidence = weightedConfidence / totalWeight,
              primaryProvider = primary, providers = map provider votes,
              individualResults = votes\<rparr>))"

definition consensusOf ::
  "ai_config \<Rightarrow> error + score \<Rightarrow> error + score \<Rightarrow> error + score \<Rightarrow> local_result \<Rightarrow> consensus" where
  "consensusOf cfg google azure aws localResult =
     (let g = providerVotes ''google'' (googleVisionApiKey cfg \<noteq> ''your-google-api-key'') google;
          a = providerVotes ''azure'' (azureVisionApiKey cfg \<noteq> ''your-azure-api-key'') azure;
          w = providerVotes ''aws'' (awsAccessKeyId cfg \<noteq> ''your-aws-access-key'') aws;
          primaryProvider =
            (if g \<noteq> [] then ''google'' else if a \<noteq> [] then ''azure''
             else if w \<noteq> [] then ''aws'' else ''local'');
          localVote = \<lparr>similarity = similarity localResult, confidence = confidence localResult,
                       provider = ''local-advanced''\<rparr>
      in weighVotes primaryProvider (g @ a @ w @ [localVote]))"

definition getMultiProviderConsensus ::
  "ai_config \<Rightarrow> collaborators \<Rightarrow> image \<Rightarrow> image \<Rightarrow> consensus" where
  "getMultiProviderConsensus cfg env image1 image2 =
     consensusOf cfg (compareWithGoogleVision env image1 image2)
       (compareWithAzureVision env image1 image2) (compareWithAWSRekognition env image1 image2)
       (compareWithAdvancedLocal env image1 image2)"

subsection \<open>Similarity clustering\<close>

text \<open>
  The \<open>await\<close> of the consensus stands in a \<open>try\<close> block whose \<open>catch\<close> falls back
  to the local average hash.  \<open>consensusFault\<close> says for which pairs the awaited call
  rejects.  The progress callback and the delay between two comparisons only observe the
  loop and are left out.
\<close>

definition tryConsensus :: "ai_config \<Rightarrow> collaborators \<Rightarrow> image \<Rightarrow> image \<Rightarrow> error + consensus" where
  "tryConsensus cfg env image1 image2 =
     (case consensusFault env image1 image2 of
        Some e \<Rightarrow> Inl e
      | None \<Rightarrow> Inr (getMultiProviderConsensus cfg env image1 image2))"

definition similarGroup :: "image list \<Rightarrow> duplicate_group" where
  "similarGroup similarImages =
     \<lparr>gtype = ''ai-detected'', images = similarImages, gsimilarity = similarityThreshold,
      gconfidence = ''high'', detectionMethod = ''multi-provider-ai'', safetyVerified = False\<rparr>"

text \<open>
  The inner loop over the later images \<open>j\<close>, with the images absorbed so far and the
  set of processed indices; the outer loop over the seeds \<open>i\<close>.
\<close>

fun absorbLoop ::
  "(image \<Rightarrow> image \<Rightarrow> error + consensus) \<Rightarrow> (string \<Rightarrow> string \<Rightarrow> real) \<Rightarrow> image \<Rightarrow>
   (nat \<times> image) list \<Rightarrow> image list \<times> nat set \<Rightarrow> image list \<times> nat set" where
  "absorbLoop cons fallback currentImage [] (similarImages, processed) = (similarImages, processed)"
| "absorbLoop cons fallback currentImage ((j, compareImage) # rest) (similarImages, processed) =
     (if j \<in> processed then absorbLoop cons fallback currentImage rest (similarImages, processed)
      else
        (case cons currentImage compareImage of
           Inr c \<Rightarrow>
             (if similarity c \<ge> similarityThreshold \<and> confidence c \<ge> 0.9
              then absorbLoop cons fallback currentImage rest
                     (similarImages @ [compareImage], insert j processed)
              else absorbLoop cons fallback currentImage rest (similarImages, processed))
         | Inl e \<Rightarrow>
             (if fallback (path currentImage) (path compareImage) \<ge> similarityThreshold
              then absorbLoop cons fallback currentImage rest
                     (similarImages @ [compareImage], insert j processed)
              else absorbLoop cons fallback currentImage rest (similarImages, processed))))"

fun seedLoop ::
  "(image \<Rightarrow> image \<Rightarrow> error + consensus) \<Rightarrow> (string \<Rightarrow> string \<Rightarrow> real) \<Rightarrow>
   (nat \<times> image) list \<Rightarrow> nat set \<Rightarrow> duplicate_group list" where
  "seedLoop cons fallback [] processed = []"
| "seedLoop cons fallback ((i, currentImage) # rest) processed =
     (if i \<in> processed then seedLoop cons fallback rest processed
      else
        (let (similarImages, processed') =
               absorbLoop cons fallback currentImage rest ([currentImage], insert i processed)
         in (if length similarImages > 1 then [similarGroup similarImages] else [])
            @ seedLoop cons fallback rest processed'))"

definition detectWithEnterpriseAI ::
  "(image \<Rightarrow> image \<Rightarrow> error + consensus) \<Rightarrow> (string \<Rightarrow> string \<Rightarrow> real) \<Rightarrow> image list \<Rightarrow>
   duplicate_group list" where
  "detectWithEnterpriseAI cons fallback imgs = seedLoop cons fallback (enumerate 0 imgs) {}"

subsection \<open>Quality ranking and the final safety pass\<close>

definition toLowerCase :: "string \<Rightarrow> string" where
  "toLowerCase s =
     map (\<lambda>c. let n = (of_char c :: nat) in if 65 \<le> n \<and> n \<le> 90 then char_of (n + 32) else c) s"

definition formatScores :: "string \<Rightarrow> real option" where
  "formatScores f =
     (if f = ''png'' then Some 1 else if f = ''tiff'' then Some 0.9
      else if f = ''jpg'' then Some 0.7 else if f = ''jpeg'' then Some 0.7
      else if f = ''gif'' then Some 0.5 else if f = ''bmp'' then Some 0.6
      else if f = ''webp'' then Some 0.8 else None)"

definition formatScore :: "string option \<Rightarrow> real" where
  "formatScore f =
     (case f of
        None \<Rightarrow> 0.5
      | Some s \<Rightarrow> (case formatScores (toLowerCase s) of None \<Rightarrow> 0.5 | Some v \<Rightarrow> v))"

definition pathDepth :: "string \<Rightarrow> nat" where
  "pathDepth p = length (filter (\<lambda>c. c = CHR ''/'' \<or> c = CHR 0x5C) p) + 1"

definition daysSinceModified :: "int \<Rightarrow> image \<Rightarrow> real" where
  "daysSinceModified now img = real_of_int (now - modified img) / (1000 * 60 * 60 * 24)"

definition rawQualityScore :: "int \<Rightarrow> image \<Rightarrow> real" where
  "rawQualityScore now img =
     real (resolution img) / 10000000 * 0.4
     + min (real (size_bytes img) / (5 * 1024 * 1024)) 1 * 0.2
     + max 0 (1 - daysSinceModified now img / 365) * 0.2
     + formatScore (format img) * 0.1
     + min (real (pathDepth (path img)) / 10) 1 * 0.1"

definition calculateQualityScore :: "int \<Rightarrow> image \<Rightarrow> real" where
  "calculateQualityScore now img = min (rawQualityScore now img) 1"

definition scoreOf :: "image \<Rightarrow> real" where
  "scoreOf img = (case qualityScore img of None \<Rightarrow> 0 | Some s \<Rightarrow> s)"

text \<open>
  \<open>Array.prototype.sort\<close> is stable, and the comparator \<open>b.qualityScore - a.qualityScore\<close>
  orders by descending score: a stable sort on the negated score.  Writing to
  \<open>group.images[0]\<close> of an empty array throws a \<open>TypeError\<close>.
\<close>

definition rankGroup :: "int \<Rightarrow> duplicate_group \<Rightarrow> error + duplicate_group" where
  "rankGroup now grp =
     (let scored = map (\<lambda>img. img\<lparr>qualityScore := Some (calculateQualityScore now img)\<rparr>)
                     (images grp);
          sorted = sort_key (\<lambda>img. - scoreOf img) scored
      in case sorted of
           [] \<Rightarrow> Inl (Error ''Cannot set properties of undefined'')
         | first # others \<Rightarrow>
             Inr (grp\<lparr>images :=
                    first\<lparr>recommended := True,
                          recommendationReason := Some ''Highest quality score''\<rparr> # others\<rparr>))"

fun rankImagesWithML :: "int \<Rightarrow> duplicate_group list \<Rightarrow> error + duplicate_group list" where
  "rankImagesWithML now [] = Inr []"
| "rankImagesWithML now (grp # grps) =
     (case rankGroup now grp of
        Inl e \<Rightarrow> Inl e
      | Inr group' \<Rightarrow>
          (case rankImagesWithML now grps of
             Inl e \<Rightarrow> Inl e
           | Inr groups' \<Rightarrow> Inr (group' # groups')))"

definition verifyGroup :: "duplicate_group \<Rightarrow> error + duplicate_group" where
  "verifyGroup grp =
     (let recommendedCount = length (filter recommended (images grp));
          images1 =
            (if recommendedCount = 0 \<and> length (images grp) > 0
             then (case images grp of
                     [] \<Rightarrow> []
                   | first # others \<Rightarrow>
                       first\<lparr>recommended := True,
                             recommendationReason := Some ''Safety fallback - first image''\<rparr>
                       # others)
             else images grp)
      in if recommendedCount \<ge> length (images grp)
         then (case images1 of
                 [] \<Rightarrow> Inl (Error ''Cannot set properties of undefined'')
               | first # others \<Rightarrow>
                   Inr (grp\<lparr>images := first\<lparr>recommended := True\<rparr>
                                        # map (\<lambda>img. img\<lparr>recommended := False\<rparr>) others,
                              safetyVerified := True\<rparr>))
         else Inr (grp\<lparr>images := images1, safetyVerified := True\<rparr>))"

fun verifySafetyBeforeReturn :: "duplicate_group list \<Rightarrow> error + duplicate_group list" where
  "verifySafetyBeforeReturn [] = Inr []"
| "verifySafetyBeforeReturn (grp # grps) =
     (case verifyGroup grp of
        Inl e \<Rightarrow> Inl e
      | Inr group' \<Rightarrow>
          (case verifySafetyBeforeReturn grps of
             Inl e \<Rightarrow> Inl e
           | Inr groups' \<Rightarrow> Inr (group' # groups')))"

subsection \<open>The entry point\<close>

definition detectDuplicates ::
  "ai_config \<Rightarrow> collaborators \<Rightarrow> int \<Rightarrow> image list \<Rightarrow> error + duplicate_group list" where
  "detectDuplicates cfg env now imgs =
     (case analysisBackupFault env of
        Some e \<Rightarrow> Inl e
      | None \<Rightarrow>
          (let (duplicateGroups, uniqueImages) = splitHashGroups (groupByHash imgs);
               aiGroups =
                 (if length uniqueImages > 1
                  then detectWithEnterpriseAI (tryConsensus cfg env)
                         (calculatePerceptualHash (imageLib env)) uniqueImages
                  else [])
           in case rankImagesWithML now (duplicateGroups @ aiGroups) of
                Inl e \<Rightarrow> Inl e
              | Inr ranked \<Rightarrow> verifySafetyBeforeReturn ranked))"


text \<open>
  The votes that contribute to a consensus, and the test under which the clustering
  absorbs a candidate into the group of a seed: the consensus test when the consensus
  was computed, the average-hash test when its computation threw.
\<close>

definition contributingVotes ::
  "ai_config \<Rightarrow> error + score \<Rightarrow> error + score \<Rightarrow> error + score \<Rightarrow> local_result \<Rightarrow> vote list" where
  "contributingVotes cfg google azure aws localResult =
     providerVotes ''google'' (googleVisionApiKey cfg \<noteq> ''your-google-api-key'') google
     @ providerVotes ''azure'' (azureVisionApiKey cfg \<noteq> ''your-azure-api-key'') azure
     @ providerVotes ''aws'' (awsAccessKeyId cfg \<noteq> ''your-aws-access-key'') aws
     @ [\<lparr>similarity = similarity localResult, confidence = confidence localResult,
         provider = ''local-advanced''\<rparr>]"

definition consensusMatch :: "(image \<Rightarrow> image \<Rightarrow> error + consensus) \<Rightarrow> image \<Rightarrow> image \<Rightarrow> bool" where
  "consensusMatch cons seed candidate =
     (case cons seed candidate of
        Inr c \<Rightarrow> similarity c \<ge> similarityThreshold \<and> confidence c \<ge> 0.9
      | Inl e \<Rightarrow> False)"

definition fallbackMatch ::
  "(image \<Rightarrow> image \<Rightarrow> error + consensus) \<Rightarrow> (string \<Rightarrow> string \<Rightarrow> real) \<Rightarrow> image \<Rightarrow> image \<Rightarrow> bool" where
  "fallbackMatch cons fallback seed candidate =
     (case cons seed candidate of
        Inr c \<Rightarrow> False
      | Inl e \<Rightarrow> fallback (path seed) (path candidate) \<ge> similarityThreshold)"

section \<open>Files, backups, deletion and restore\<close>

text \<open>
  The file system is a map from the paths of the files to their contents, together with
  the set of directories; the paths handed to backup, deletion and restore name files.
  A manifest is kept as the record that \<open>manifest.json\<close> holds, under the path of its
  backup directory.  The disk, the hash functions, the trash and the audit log are
  collaborators: a copy may fail or write something else than it read, moving a file to
  the trash may fail, and so may appending to the deletion log.
\<close>

type_synonym bytes = "byte list"

record backup_entry =
  originalPath :: string
  backupPath :: string
  verified :: bool
  fileHash :: string

record manifest =
  backupId :: string
  operation :: string
  totalFiles :: nat
  entries :: "backup_entry list"
  verificationPassed :: bool

record log_entry =
  logOperation :: string
  logBackupId :: string
  status :: string
  itemCount :: nat
  failedCount :: nat

record state =
  files :: "string \<rightharpoonup> bytes"
  dirs :: "string set"
  manifests :: "string \<rightharpoonup> manifest"
  operationLog :: "log_entry list"
  deletionLog :: "string list"

record sys =
  backupDir :: string
  sha256 :: "bytes \<Rightarrow> string"
  md5 :: "bytes \<Rightarrow> string"
  mtime :: "string \<Rightarrow> int"
  copyWrites :: "string \<Rightarrow> string \<Rightarrow> bytes \<Rightarrow> error + bytes"
  trashFault :: "string \<Rightarrow> error option"
  logFault :: "string \<Rightarrow> error option"

definition pathExists :: "state \<Rightarrow> string \<Rightarrow> bool" where
  "pathExists s p = (files s p \<noteq> None)"

definition dirExists :: "state \<Rightarrow> string \<Rightarrow> bool" where
  "dirExists s p = (p \<in> dirs s)"

definition readFile :: "state \<Rightarrow> string \<Rightarrow> error + bytes" where
  "readFile s p = (case files s p of None \<Rightarrow> Inl (Error ''ENOENT'') | Some c \<Rightarrow> Inr c)"

text \<open>\<open>fs.copy\<close> refuses a copy onto its own source and fails when the source is missing.\<close>

definition copy :: "sys \<Rightarrow> state \<Rightarrow> string \<Rightarrow> string \<Rightarrow> error + state" where
  "copy env s src dest =
     (if src = dest then Inl (Error ''Source and destination must not be the same.'')
      else case files s src of
             None \<Rightarrow> Inl (Error ''ENOENT'')
           | Some c \<Rightarrow>
               (case copyWrites env src dest c of
                  Inl e \<Rightarrow> Inl e
                | Inr written \<Rightarrow> Inr (s\<lparr>files := (files s)(dest \<mapsto> written)\<rparr>)))"

definition calculateFileHash :: "sys \<Rightarrow> state \<Rightarrow> string \<Rightarrow> error + string" where
  "calculateFileHash env s p =
     (case readFile s p of Inl e \<Rightarrow> Inl e | Inr c \<Rightarrow> Inr (sha256 env c))"

subsection \<open>Decimal numerals, base names and joined paths\<close>

fun digits :: "nat \<Rightarrow> string" where
  "digits n = (if n < 10 then [char_of (48 + n)] else digits (n div 10) @ [char_of (48 + n mod 10)])"

definition basename :: "string \<Rightarrow> string" where
  "basename p = rev (takeWhile (\<lambda>c. c \<noteq> CHR ''/'') (rev p))"

definition join :: "string \<Rightarrow> string \<Rightarrow> string" where
  "join d f = d @ ''/'' @ f"

subsection \<open>The backup before a deletion\<close>

definition backupOne ::
  "sys \<Rightarrow> string \<Rightarrow> state \<times> backup_entry list \<Rightarrow> string \<Rightarrow>
   (error + backup_entry list) \<times> state" where
  "backupOne env backupPath' acc filePath =
     (let (s, copiedFiles) = acc in
      if pathExists s filePath then
        (let fileName = basename filePath;
             safeName = digits (length copiedFiles) @ ''_'' @ fileName;
             copyPath = join backupPath' safeName
         in case copy env s filePath copyPath of
              Inl e \<Rightarrow> (Inl e, s)
            | Inr s' \<Rightarrow>
                (case calculateFileHash env s' filePath of
                   Inl e \<Rightarrow> (Inl e, s')
                 | Inr originalHash \<Rightarrow>
                     (case calculateFileHash env s' copyPath of
                        Inl e \<Rightarrow> (Inl e, s')
                      | Inr copyHash \<Rightarrow>
                          (if originalHash \<noteq> copyHash
                           then (Inl (Error (''Backup verification failed for '' @ filePath)), s')
                           else (Inr (copiedFiles @
                                   [\<lparr>originalPath = filePath, backupPath = copyPath,
                                     verified = True, fileHash = originalHash\<rparr>]), s')))))
      else (Inr copiedFiles, s))"

text \<open>
  The loop over the files: the first fault is thrown again, which ends the loop.  The
  state comes back in both cases, since the copies made before a fault stay on the disk.
\<close>

fun backupLoop ::
  "sys \<Rightarrow> string \<Rightarrow> state \<times> backup_entry list \<Rightarrow> string list \<Rightarrow>
   (error + backup_entry list) \<times> state" where
  "backupLoop env backupPath' (s, copiedFiles) [] = (Inr copiedFiles, s)"
| "backupLoop env backupPath' (s, copiedFiles) (filePath # rest) =
     (case backupOne env backupPath' (s, copiedFiles) filePath of
        (Inl e, s') \<Rightarrow> (Inl e, s')
      | (Inr copiedFiles', s') \<Rightarrow> backupLoop env backupPath' (s', copiedFiles') rest)"

definition createPreDeletionBackup ::
  "sys \<Rightarrow> nat \<Rightarrow> state \<Rightarrow> string list \<Rightarrow> (error + string) \<times> state" where
  "createPreDeletionBackup env timestamp s filesToDelete =
     (let backupId' = ''deletion_'' @ digits timestamp;
          backupPath' = join (join (backupDir env) ''pre-deletion'') backupId';
          s0 = s\<lparr>dirs := insert backupPath' (dirs s)\<rparr>
      in case backupLoop env backupPath' (s0, []) filesToDelete of
           (Inl e, s1) \<Rightarrow> (Inl e, s1)
         | (Inr copiedFiles, s1) \<Rightarrow>
             (let m = \<lparr>backupId = backupId', operation = ''pre-deletion'',
                       totalFiles = length copiedFiles, entries = copiedFiles,
                       verificationPassed = True\<rparr>;
                  s2 = s1\<lparr>manifests := (manifests s1)(backupPath' \<mapsto> m)\<rparr>;
                  s3 = s2\<lparr>operationLog := operationLog s2 @
                            [\<lparr>logOperation = ''pre-deletion-backup'', logBackupId = backupId',
                              status = ''completed'', itemCount = length copiedFiles,
                              failedCount = 0\<rparr>]\<rparr>
              in (Inr backupId', s3)))"

subsection \<open>Existence check and deletion\<close>

record verification =
  vtotal :: nat
  existing :: nat
  missing :: "string list"
  vverified :: bool

definition verifyFilesExist :: "state \<Rightarrow> string list \<Rightarrow> verification" where
  "verifyFilesExist s filePaths =
     (let gone = filter (\<lambda>p. \<not> pathExists s p) filePaths
      in \<lparr>vtotal = length filePaths, existing = length (filter (pathExists s) filePaths),
          missing = gone, vverified = (gone = [])\<rparr>)"

record failure =
  failedPath :: string
  reason :: string

record deletion_result =
  deleted :: "string list"
  failed :: "failure list"
  total :: nat

fun message :: "error \<Rightarrow> string" where
  "message (Error m) = m"

text \<open>
  One turn of the loop of \<open>deleteFiles\<close>.  The path is pushed on \<open>deleted\<close> as soon as
  the trash has taken the file; the audit log is written after that, inside the same
  \<open>try\<close>.
\<close>

definition deleteOne :: "sys \<Rightarrow> deletion_result \<times> state \<Rightarrow> string \<Rightarrow> deletion_result \<times> state" where
  "deleteOne env acc filePath =
     (let (res, s) = acc in
      if pathExists s filePath then
        (case trashFault env filePath of
           Some e \<Rightarrow>
             (res\<lparr>failed := failed res @ [\<lparr>failedPath = filePath, reason = message e\<rparr>]\<rparr>, s)
         | None \<Rightarrow>
             (let s' = s\<lparr>files := (files s)(filePath := None)\<rparr>;
                  res' = res\<lparr>deleted := deleted res @ [filePath]\<rparr>
              in case logFault env filePath of
                   Some e \<Rightarrow>
                     (res'\<lparr>failed := failed res' @ [\<lparr>failedPath = filePath, reason = message e\<rparr>]\<rparr>,
                      s')
                 | None \<Rightarrow> (res', s'\<lparr>deletionLog := deletionLog s' @ [filePath]\<rparr>)))
      else (res\<lparr>failed := failed res @ [\<lparr>failedPath = filePath, reason = ''File not found''\<rparr>]\<rparr>, s))"

definition deleteFiles :: "sys \<Rightarrow> state \<Rightarrow> string list \<Rightarrow> deletion_result \<times> state" where
  "deleteFiles env s filesToDelete =
     foldl (deleteOne env) (\<lparr>deleted = [], failed = [], total = length filesToDelete\<rparr>, s)
       filesToDelete"

text \<open>The handler of \<open>delete-files\<close>: backup, existence check, then the deletion.\<close>

definition deleteFilesHandler ::
  "sys \<Rightarrow> nat \<Rightarrow> state \<Rightarrow> string list \<Rightarrow> (error + deletion_result \<times> string) \<times> state" where
  "deleteFilesHandler env timestamp s filesToDelete =
     (case createPreDeletionBackup env timestamp s filesToDelete of
        (Inl e, s1) \<Rightarrow> (Inl e, s1)
      | (Inr backupId', s1) \<Rightarrow>
          (let v = verifyFilesExist s1 filesToDelete in
           if \<not> vverified v
           then (Inl (Error (''Cannot proceed: '' @ digits (length (missing v))
                             @ '' files are missing'')), s1)
           else (let (res, s2) = deleteFiles env s1 filesToDelete in (Inr (res, backupId'), s2))))"

subsection \<open>Restore\<close>

record restore_result =
  restoredFrom :: string
  restored :: "string list"
  notRestored :: "failure list"
  success :: bool

definition restoreOne ::
  "sys \<Rightarrow> (string list \<times> failure list) \<times> state \<Rightarrow> backup_entry \<Rightarrow>
   (string list \<times> failure list) \<times> state" where
  "restoreOne env acc file =
     (let ((restored', failed'), s) = acc in
      if \<not> pathExists s (originalPath file) then
        (case copy env s (backupPath file) (originalPath file) of
           Inl e \<Rightarrow>
             ((restored', failed' @ [\<lparr>failedPath = originalPath file, reason = message e\<rparr>]), s)
         | Inr s' \<Rightarrow>
             (case calculateFileHash env s' (originalPath file) of
                Inl e \<Rightarrow>
                  ((restored', failed' @ [\<lparr>failedPath = originalPath file, reason = message e\<rparr>]),
                   s')
              | Inr restoredHash \<Rightarrow>
                  (if restoredHash = fileHash file
                   then ((restored' @ [originalPath file], failed'), s')
                   else ((restored', failed' @
                           [\<lparr>failedPath = originalPath file,
                             reason = ''Hash mismatch after restore''\<rparr>]), s'))))
      else ((restored' @ [originalPath file], failed'), s))"

definition restoreFromBackup :: "sys \<Rightarrow> state \<Rightarrow> string \<Rightarrow> (error + restore_result) \<times> state" where
  "restoreFromBackup env s backupId' =
     (let backupPath' = join (join (backupDir env) ''pre-deletion'') backupId' in
      if \<not> dirExists s backupPath' then (Inl (Error (''Backup not found: '' @ backupId')), s)
      else case manifests s backupPath' of
             None \<Rightarrow> (Inl (Error ''ENOENT''), s)
           | Some m \<Rightarrow>
               (let ((restored', failed'), s1) = foldl (restoreOne env) (([], []), s) (entries m);
                    s2 = s1\<lparr>operationLog := operationLog s1 @
                              [\<lparr>logOperation = ''restore-from-backup'', logBackupId = backupId',
                                status = (if length failed' > 0 then ''partial'' else ''completed''),
                                itemCount = length restored', failedCount = length failed'\<rparr>]\<rparr>
                in (Inr \<lparr>restoredFrom = backupId', restored = restored', notRestored = failed',
                         success = (length failed' = 0)\<rparr>, s2)))"

declare digits.simps [simp del]

text \<open>
  What one turn of the restore loop does to the disk, and the path under which the
  backup puts the copy of a file.
\<close>

definition restoreStep :: "sys \<Rightarrow> state \<Rightarrow> backup_entry \<Rightarrow> state" where
  "restoreStep env s file =
     (if pathExists s (originalPath file) then s
      else case copy env s (backupPath file) (originalPath file) of Inl e \<Rightarrow> s | Inr s' \<Rightarrow> s')"

definition copyPathOf :: "string \<Rightarrow> nat \<Rightarrow> string \<Rightarrow> string" where
  "copyPathOf backupPath' n filePath = join backupPath' (digits n @ ''_'' @ basename filePath)"

definition backupPathOf :: "sys \<Rightarrow> nat \<Rightarrow> string" where
  "backupPathOf env timestamp =
     join (join (backupDir env) ''pre-deletion'') (''deletion_'' @ digits timestamp)"

section \<open>Exact grouping in the local-only detector\<close>

text \<open>
  The local-only variant of the detector reads every file again and keys it by its byte
  size and the MD5 digest of its content, written \<open>size-digest\<close>.  The record it puts
  into the group is the image record with the key as its \<open>hash\<close> and with the size and
  the modification time of the file.  A file that cannot be read is skipped with a
  warning.
\<close>

record hashed_image = image +
  fileSize :: nat
  lastModified :: int

record simple_group =
  stype :: string
  simages :: "hashed_image list"
  ssimilarity :: real
  sconfidence :: string
  smethod :: string
  recommendedToKeep :: "hashed_image option"

definition combinedHash :: "sys \<Rightarrow> bytes \<Rightarrow> string" where
  "combinedHash env buffer = digits (length buffer) @ ''-'' @ md5 env buffer"

definition hashedImage :: "sys \<Rightarrow> image \<Rightarrow> bytes \<Rightarrow> hashed_image" where
  "hashedImage env img buffer =
     \<lparr>path = path img, name = name img, size_bytes = size_bytes img, modified = modified img,
      width = width img, height = height img, format = format img,
      hash = combinedHash env buffer, resolution = resolution img,
      qualityScore = qualityScore img, recommended = recommended img,
      recommendationReason = recommendationReason img,
      fileSize = length buffer, lastModified = mtime env (path img)\<rparr>"

definition groupByHashSimplified ::
  "sys \<Rightarrow> state \<Rightarrow> image list \<Rightarrow> (string \<times> hashed_image list) list" where
  "groupByHashSimplified env s imgs =
     foldl (\<lambda>hashMap img.
              case readFile s (path img) of
                Inl e \<Rightarrow> hashMap
              | Inr buffer \<Rightarrow>
                  pushToKey (combinedHash env buffer) (hashedImage env img buffer) hashMap)
       [] imgs"

definition exactGroupSimplified :: "hashed_image list \<Rightarrow> simple_group" where
  "exactGroupSimplified imageGroup =
     \<lparr>stype = ''exact'', simages = imageGroup, ssimilarity = 1, sconfidence = ''absolute'',
      smethod = ''file-hash'',
      recommendedToKeep = (case imageGroup of [] \<Rightarrow> None | first # others \<Rightarrow> Some first)\<rparr>"

fun splitHashGroupsSimplified ::
  "(string \<times> hashed_image list) list \<Rightarrow> simple_group list \<times> hashed_image list" where
  "splitHashGroupsSimplified [] = ([], [])"
| "splitHashGroupsSimplified ((k, imageGroup) # rest) =
     (let (duplicateGroups, uniqueImages) = splitHashGroupsSimplified rest
      in if length imageGroup > 1
         then (exactGroupSimplified imageGroup # duplicateGroups, uniqueImages)
         else (duplicateGroups, take 1 imageGroup @ uniqueImages))"

text \<open>
  Both detectors fill a map from keys to groups with \<open>pushToKey\<close>.  For a function that
  gives the key and the stored value of an element, or nothing for an element that is
  skipped, these are the values stored under a key.
\<close>

definition storedUnder :: "('a \<Rightarrow> (string \<times> 'b) option) \<Rightarrow> string \<Rightarrow> 'a list \<Rightarrow> 'b list" where
  "storedUnder kf k xs =
     List.map_filter
       (\<lambda>x. case kf x of None \<Rightarrow> None | Some (k', v) \<Rightarrow> if k' = k then Some v else None) xs"

definition groupWith :: "('a \<Rightarrow> (string \<times> 'b) option) \<Rightarrow> (string \<times> 'b list) list \<Rightarrow> 'a list \<Rightarrow> (string \<times> 'b list) list" where
  "groupWith kf m xs =
     foldl (\<lambda>hashMap x. case kf x of None \<Rightarrow> hashMap | Some (k, v) \<Rightarrow> pushToKey k v hashMap) m xs"

definition digestKey :: "image \<Rightarrow> (string \<times> image) option" where
  "digestKey img = Some (hash img, img)"

definition sizeDigestKey :: "sys \<Rightarrow> state \<Rightarrow> image \<Rightarrow> (string \<times> hashed_image) option" where
  "sizeDigestKey env s img =
     (case files s (path img) of
        None \<Rightarrow> None
      | Some buffer \<Rightarrow> Some (combinedHash env buffer, hashedImage env img buffer))"

text \<open>Reading a decimal numeral back.\<close>

definition readDigits :: "string \<Rightarrow> nat" where
  "readDigits ds = foldl (\<lambda>acc c. 10 * acc + (of_char c - 48)) 0 ds"

section \<open>Sample inputs\<close>

text \<open>A record as \<open>processImage\<close> returns it: no score, no recommendation yet.\<close>

definition scanned :: "string \<Rightarrow> nat \<Rightarrow> int \<Rightarrow> nat \<Rightarrow> nat \<Rightarrow> string \<Rightarrow> string \<Rightarrow> image" where
  "scanned p sz m w h fmt digest =
     \<lparr>path = p, name = basename p, size_bytes = sz, modified = m, width = w, height = h,
      format = Some fmt, hash = digest, resolution = w * h, qualityScore = None,
      recommended = False, recommendationReason = None\<rparr>"

definition placeholderConfig :: ai_config where
  "placeholderConfig =
     \<lparr>googleVisionApiKey = ''your-google-api-key'', azureVisionApiKey = ''your-azure-api-key'',
      awsAccessKeyId = ''your-aws-access-key''\<rparr>"

text \<open>A library that decodes nothing, and one that decodes every path to the same picture.\<close>

definition offlineLib :: jimp where
  "offlineLib = \<lparr>jread = (\<lambda>p. None), resize = (\<lambda>w h bm. bm), greyscale = (\<lambda>bm. bm)\<rparr>"


text \<open>No provider answers and no image decodes.\<close>

definition offlineEnv :: collaborators where
  "offlineEnv =
     \<lparr>googleFeatureSimilarity = (\<lambda>a b. Inl (Error ''unavailable'')),
      azureFeatureSimilarity = (\<lambda>a b. Inl (Error ''unavailable'')),
      awsFeatureSimilarity = (\<lambda>a b. Inl (Error ''unavailable'')),
      featureMatching = (\<lambda>p q. 0),
      consensusFault = (\<lambda>a b. None),
      analysisBackupFault = None,
      imageLib = offlineLib\<rparr>"




text \<open>
  Ranking time: 1 January 2025, in milliseconds.  \<open>photoA\<close> and \<open>photoB\<close> are two
  records with the same digest, \<open>photoC\<close> has another one, and \<open>photoD\<close> carries the
  digest of \<open>photoA\<close> with another byte size.
\<close>

definition rankingTime :: int where
  "rankingTime = 1735689600000"

definition photoA :: image where
  "photoA = scanned ''/photos/a.jpg'' 2000000 1733011200000 4000 3000 ''jpeg'' ''d41d8cd9''"

definition photoB :: image where
  "photoB = scanned ''/photos/b.jpg'' 2000000 1730419200000 4000 3000 ''jpeg'' ''d41d8cd9''"

definition photoC :: image where
  "photoC = scanned ''/photos/c.jpg'' 1500000 1730419200000 4000 3000 ''jpeg'' ''0cc175b9''"

definition photoD :: image where
  "photoD = scanned ''/photos/d.jpg'' 900000 1730419200000 4000 3000 ''jpeg'' ''d41d8cd9''"



text \<open>The groups that the detection returns for the samples.\<close>

definition keptGroup :: duplicate_group where
  "keptGroup =
     \<lparr>gtype = ''exact'',
      images = [photoA\<lparr>qualityScore := Some (2509597 / 2990080), recommended := True,
                      recommendationReason := Some ''Highest quality score''\<rparr>,
                photoB\<lparr>qualityScore := Some (492089 / 598016)\<rparr>],
      gsimilarity = 1, gconfidence = ''absolute'', detectionMethod = ''file-hash'',
      safetyVerified = True\<rparr>"

definition mixedGroup :: duplicate_group where
  "mixedGroup =
     \<lparr>gtype = ''exact'',
      images = [photoA\<lparr>qualityScore := Some (2509597 / 2990080), recommended := True,
                      recommendationReason := Some ''Highest quality score''\<rparr>,
                photoD\<lparr>qualityScore := Some (1867981 / 2392064)\<rparr>],
      gsimilarity = 1, gconfidence = ''absolute'', detectionMethod = ''file-hash'',
      safetyVerified = True\<rparr>"

section \<open>Sample disks\<close>

text \<open>
  A stand-in for the digest functions in the examples: the content itself, written as
  characters.  \<open>quietSys\<close> is a system without faults; the copies of \<open>corruptingSys\<close>
  lose their last byte.
\<close>

definition plainDigest :: "bytes \<Rightarrow> string" where
  "plainDigest c = map (\<lambda>b. char_of (unat b)) c"

definition quietSys :: sys where
  "quietSys =
     \<lparr>backupDir = ''/app/backup'', sha256 = plainDigest, md5 = plainDigest, mtime = (\<lambda>p. 0),
      copyWrites = (\<lambda>src dest c. Inr c), trashFault = (\<lambda>p. None), logFault = (\<lambda>p. None)\<rparr>"

definition corruptingSys :: sys where
  "corruptingSys = quietSys\<lparr>copyWrites := (\<lambda>src dest c. Inr (butlast c))\<rparr>"

definition sampleDisk :: state where
  "sampleDisk =
     \<lparr>files = [''/photos/a.jpg'' \<mapsto> [1, 2, 3], ''/photos/b.jpg'' \<mapsto> [1, 2, 3],
               ''/photos/c.jpg'' \<mapsto> [9, 9]],
      dirs = {}, manifests = Map.empty, operationLog = [], deletionLog = []\<rparr>"

text \<open>
  The disk after \<open>/photos/b.jpg\<close> was backed up under the identifier \<open>deletion_1\<close> and
  moved to the trash.
\<close>

definition sampleManifest :: manifest where
  "sampleManifest =
     \<lparr>backupId = ''deletion_1'', operation = ''pre-deletion'', totalFiles = 1,
      entries = [\<lparr>originalPath = ''/photos/b.jpg'',
                  backupPath = ''/app/backup/pre-deletion/deletion_1/0_b.jpg'',
                  verified = True, fileHash = plainDigest [1, 2, 3]\<rparr>],
      verificationPassed = True\<rparr>"

definition trashedDisk :: state where
  "trashedDisk =
     \<lparr>files = [''/photos/a.jpg'' \<mapsto> [1, 2, 3], ''/photos/b.jpg'' \<mapsto> [1, 2, 3],
               ''/photos/c.jpg'' \<mapsto> [9, 9],
               ''/app/backup/pre-deletion/deletion_1/0_b.jpg'' \<mapsto> [1, 2, 3]]
              (''/photos/b.jpg'' := None),
      dirs = {''/app/backup/pre-deletion/deletion_1''},
      manifests = [''/app/backup/pre-deletion/deletion_1'' \<mapsto> sampleManifest],
      operationLog = [\<lparr>logOperation = ''pre-deletion-backup'', logBackupId = ''deletion_1'',
                       status = ''completed'', itemCount = 1, failedCount = 0\<rparr>],
      deletionLog = [''/photos/b.jpg'']\<rparr>"

section \<open>Properties of the local similarity methods\<close>

lemma length_scan: "length (scan bm w h) = w * h"
proof -
  have "sum_list (map (\<lambda>y. w) [0..<h]) = h * w"
    by (simp add: sum_list_triv)
  then show ?thesis
    by (simp add: scan_def length_concat comp_def mult.commute)
qed

lemma calculateHashSimilarity_self:
  "h \<noteq> [] \<Longrightarrow> calculateHashSimilarity h h = 1"
  by (simp add: calculateHashSimilarity_def)

lemma length_hashOfBitmap: "length (hashOfBitmap bm) = 64"
  by (simp add: hashOfBitmap_def Let_def length_scan)

lemma pixelDiff_self: "pixelDiff p p = 0"
  by (cases p) simp

lemma structuralOfBitmaps_self: "structuralOfBitmaps bm bm = 1"
proof -
  have "map (\<lambda>(p1, p2). pixelDiff p1 p2) (zip xs xs) = map (\<lambda>_. 0) xs" for xs
    by (induction xs) (simp_all add: pixelDiff_self)
  then show ?thesis
    by (simp add: structuralOfBitmaps_def Let_def)
qed

lemma length_bump: "length (bump bins i) = length bins"
  by (simp add: bump_def)

lemma sum_list_bump: "i < length bins \<Longrightarrow> sum_list (bump bins i) = sum_list bins + 1"
  by (simp add: bump_def sum_list_update)

lemma correlation_self:
  assumes "length bins = 256"
  shows "correlation bins bins = sum_list bins"
proof -
  have "map (\<lambda>i. bins ! i) [0..<length bins] = bins"
    by (rule map_nth)
  with assms show ?thesis
    by (simp add: correlation_def)
qed

lemma foldl_countPixel:
  assumes "length (binsR h) = 256" "length (binsG h) = 256" "length (binsB h) = 256"
  shows "length (binsR (foldl countPixel h ps)) = 256
       \<and> length (binsG (foldl countPixel h ps)) = 256
       \<and> length (binsB (foldl countPixel h ps)) = 256
       \<and> sum_list (binsR (foldl countPixel h ps)) = sum_list (binsR h) + length ps
       \<and> sum_list (binsG (foldl countPixel h ps)) = sum_list (binsG h) + length ps
       \<and> sum_list (binsB (foldl countPixel h ps)) = sum_list (binsB h) + length ps"
  using assms
proof (induction ps arbitrary: h)
  case Nil
  then show ?case by simp
next
  case (Cons p ps)
  have lt: "unat (c :: byte) < 256" for c
  proof -
    have "unat c < 2 ^ LENGTH(8)" by (rule unsigned_less)
    then show ?thesis by simp
  qed
  let ?h = "countPixel h p"
  have len: "length (binsR ?h) = 256" "length (binsG ?h) = 256" "length (binsB ?h) = 256"
    using Cons.prems by (simp_all add: countPixel_def length_bump)
  have sums: "sum_list (binsR ?h) = sum_list (binsR h) + 1"
    "sum_list (binsG ?h) = sum_list (binsG h) + 1"
    "sum_list (binsB ?h) = sum_list (binsB h) + 1"
    using Cons.prems lt by (simp_all add: countPixel_def sum_list_bump)
  from Cons.IH [OF len] sums show ?case by simp
qed

lemma compareHistograms_self:
  "compareHistograms (histogramOfBitmap bm) (histogramOfBitmap bm)
     = real (bwidth bm * bheight bm) / 256"
proof -
  let ?ps = "scan bm (bwidth bm) (bheight bm)"
  have e: "length (binsR emptyHistogram) = 256" "length (binsG emptyHistogram) = 256"
    "length (binsB emptyHistogram) = 256"
    by (simp_all add: emptyHistogram_def)
  have z: "sum_list (binsR emptyHistogram) = 0" "sum_list (binsG emptyHistogram) = 0"
    "sum_list (binsB emptyHistogram) = 0"
    by (simp_all add: emptyHistogram_def)
  from foldl_countPixel [OF e, of ?ps] z
  have "correlation (binsR (histogramOfBitmap bm)) (binsR (histogramOfBitmap bm)) = length ?ps"
    "correlation (binsG (histogramOfBitmap bm)) (binsG (histogramOfBitmap bm)) = length ?ps"
    "correlation (binsB (histogramOfBitmap bm)) (binsB (histogramOfBitmap bm)) = length ?ps"
    by (simp_all add: histogramOfBitmap_def correlation_self)
  then show ?thesis
    by (simp add: compareHistograms_def length_scan)
qed

lemma histogramIntersectionSpec_self:
  assumes "0 < bwidth bm * bheight bm"
  shows "histogramIntersectionSpec (histogramOfBitmap bm) (histogramOfBitmap bm)
           (bwidth bm * bheight bm) = 1"
proof -
  let ?ps = "scan bm (bwidth bm) (bheight bm)"
  have e: "length (binsR emptyHistogram) = 256" "length (binsG emptyHistogram) = 256"
    "length (binsB emptyHistogram) = 256"
    by (simp_all add: emptyHistogram_def)
  have z: "sum_list (binsR emptyHistogram) = 0" "sum_list (binsG emptyHistogram) = 0"
    "sum_list (binsB emptyHistogram) = 0"
    by (simp_all add: emptyHistogram_def)
  from foldl_countPixel [OF e, of ?ps] z
  have "correlation (binsR (histogramOfBitmap bm)) (binsR (histogramOfBitmap bm)) = length ?ps"
    "correlation (binsG (histogramOfBitmap bm)) (binsG (histogramOfBitmap bm)) = length ?ps"
    "correlation (binsB (histogramOfBitmap bm)) (binsB (histogramOfBitmap bm)) = length ?ps"
    by (simp_all add: histogramOfBitmap_def correlation_self)
  with assms show ?thesis
    by (simp add: histogramIntersectionSpec_def length_scan)
qed

lemma calculatePerceptualHash_same:
  assumes "jread lib p = Some bm" and "jread lib q = Some bm"
  shows "calculatePerceptualHash lib p q = 1"
proof -
  have "hashOfBitmap (greyscale lib (resize lib 8 8 bm)) \<noteq> []"
    using length_hashOfBitmap [of "greyscale lib (resize lib 8 8 bm)"] by auto
  with assms show ?thesis
    by (simp add: calculatePerceptualHash_def generatePerceptualHash_def
        calculateHashSimilarity_self)
qed

lemma calculateStructuralSimilarity_same:
  "jread lib p = Some bm \<Longrightarrow> jread lib q = Some bm \<Longrightarrow>
   calculateStructuralSimilarity lib p q = 1"
  by (simp add: calculateStructuralSimilarity_def structuralOfBitmaps_self)

lemma calculateHistogramSimilarity_same:
  "jread lib p = Some bm \<Longrightarrow> jread lib q = Some bm \<Longrightarrow>
   calculateHistogramSimilarity lib p q = real (bwidth bm * bheight bm) / 256"
  by (simp add: calculateHistogramSimilarity_def generateHistogram_def compareHistograms_self)

text \<open>
  C5.  The histogram similarity of two images is, per channel, the sum of the bin-wise
  minima divided by the number of samples, averaged over the channels.  The code divides
  the sum over the three channels by \<open>3 * 256\<close>, the number of bins, whatever the number
  of samples is: for the two-by-two image compared with itself it returns \<open>4 / 256\<close>,
  where the value the specification describes is 1.
\<close>

theorem compareHistograms_divides_by_bins:
  "compareHistograms (histogramOfBitmap tinyBitmap) (histogramOfBitmap tinyBitmap) = 1 / 64
   \<and> histogramIntersectionSpec (histogramOfBitmap tinyBitmap) (histogramOfBitmap tinyBitmap) 4 = 1"
proof -
  have wh: "bwidth tinyBitmap * bheight tinyBitmap = 4"
    by (simp add: tinyBitmap_def)
  have "compareHistograms (histogramOfBitmap tinyBitmap) (histogramOfBitmap tinyBitmap) = 1 / 64"
    by (simp add: compareHistograms_self wh)
  moreover have "histogramIntersectionSpec (histogramOfBitmap tinyBitmap)
      (histogramOfBitmap tinyBitmap) 4 = 1"
    using histogramIntersectionSpec_self [of tinyBitmap] by (simp add: wh)
  ultimately show ?thesis by simp
qed

text \<open>
  C6.  Every local similarity method returns 1 for an image compared with itself.  The
  average hash and the structural distance do; the histogram method returns the number of
  pixels divided by 256, which for the two-by-two image is \<open>1 / 64\<close>.
\<close>

theorem self_similarity_of_tiny_image:
  "calculatePerceptualHash tinyLib ''a.png'' ''a.png'' = 1
   \<and> calculateStructuralSimilarity tinyLib ''a.png'' ''a.png'' = 1
   \<and> calculateHistogramSimilarity tinyLib ''a.png'' ''a.png'' = 1 / 64"
proof -
  have r: "jread tinyLib ''a.png'' = Some tinyBitmap"
    by (simp add: tinyLib_def)
  have wh: "bwidth tinyBitmap * bheight tinyBitmap = 4"
    by (simp add: tinyBitmap_def)
  show ?thesis
    using calculatePerceptualHash_same [OF r r] calculateStructuralSimilarity_same [OF r r]
      calculateHistogramSimilarity_same [OF r r]
    by (simp add: wh)
qed

section \<open>Properties of the detection pipeline\<close>

subsection \<open>Consensus\<close>

lemma foldl_weigh:
  "foldl (\<lambda>(ws, wc, tw) result.
            (let weight = weightOf (provider result)
             in (ws + similarity result * weight, wc + confidence result * weight, tw + weight)))
     (ws0, wc0, tw0) votes
   = (ws0 + sum_list (map (\<lambda>v. similarity v * weightOf (provider v)) votes),
      wc0 + sum_list (map (\<lambda>v. confidence v * weightOf (provider v)) votes),
      tw0 + sum_list (map (\<lambda>v. weightOf (provider v)) votes))"
  by (induction votes arbitrary: ws0 wc0 tw0) (simp_all add: Let_def add.assoc)



lemma weighVotes_average:
  assumes "votes \<noteq> []"
  shows "similarity (weighVotes primary votes)
           = sum_list (map (\<lambda>v. similarity v * weightOf (provider v)) votes)
             / sum_list (map (\<lambda>v. weightOf (provider v)) votes)"
    and "confidence (weighVotes primary votes)
           = sum_list (map (\<lambda>v. confidence v * weightOf (provider v)) votes)
             / sum_list (map (\<lambda>v. weightOf (provider v)) votes)"
    and "individualResults (weighVotes primary votes) = votes"
  using assms by (simp_all add: weighVotes_def foldl_weigh)

lemma consensusOf_votes:
  "individualResults (consensusOf cfg g a w l) = contributingVotes cfg g a w l"
  by (simp add: consensusOf_def Let_def contributingVotes_def weighVotes_average)

subsection \<open>Clustering\<close>

lemma absorbLoop_extends:
  "absorbLoop cons fb cur rest (sim, proc) = (sim', proc') \<Longrightarrow>
   \<exists>extra. sim' = sim @ extra \<and> set extra \<subseteq> snd ` set rest
     \<and> (\<forall>m\<in>set extra. consensusMatch cons cur m \<or> fallbackMatch cons fb cur m)"
proof (induction rest arbitrary: sim proc)
  case Nil
  then show ?case by simp
next
  case (Cons jc rest)
  obtain j cmp where jc: "jc = (j, cmp)" by (cases jc)
  show ?case
  proof (cases "j \<in> proc")
    case True
    with Cons.prems jc have "absorbLoop cons fb cur rest (sim, proc) = (sim', proc')" by simp
    from Cons.IH [OF this] show ?thesis by auto
  next
    case False
    show ?thesis
    proof (cases "consensusMatch cons cur cmp \<or> fallbackMatch cons fb cur cmp")
      case True
      with False Cons.prems jc
      have "absorbLoop cons fb cur rest (sim @ [cmp], insert j proc) = (sim', proc')"
        by (auto simp: consensusMatch_def fallbackMatch_def split: sum.splits if_splits)
      from Cons.IH [OF this] obtain extra where
        e: "sim' = (sim @ [cmp]) @ extra" "set extra \<subseteq> snd ` set rest"
        "\<forall>m\<in>set extra. consensusMatch cons cur m \<or> fallbackMatch cons fb cur m"
        by blast
      show ?thesis
      proof (intro exI conjI)
        show "sim' = sim @ (cmp # extra)" using e(1) by simp
        show "set (cmp # extra) \<subseteq> snd ` set (jc # rest)" using e(2) jc by auto
        show "\<forall>m\<in>set (cmp # extra). consensusMatch cons cur m \<or> fallbackMatch cons fb cur m"
          using e(3) True by auto
      qed
    next
      case nomatch: False
      with False Cons.prems jc
      have "absorbLoop cons fb cur rest (sim, proc) = (sim', proc')"
        by (auto simp: consensusMatch_def fallbackMatch_def split: sum.splits if_splits)
      from Cons.IH [OF this] show ?thesis by auto
    qed
  qed
qed

lemma seedLoop_groups:
  "g \<in> set (seedLoop cons fb xs proc) \<Longrightarrow>
   \<exists>seed members. g = similarGroup (seed # members) \<and> members \<noteq> []
     \<and> set (seed # members) \<subseteq> snd ` set xs
     \<and> (\<forall>m\<in>set members. consensusMatch cons seed m \<or> fallbackMatch cons fb seed m)"
proof (induction xs arbitrary: proc)
  case Nil
  then show ?case by simp
next
  case (Cons ic rest)
  obtain i cur where ic: "ic = (i, cur)" by (cases ic)
  show ?case
  proof (cases "i \<in> proc")
    case True
    with Cons.prems ic have "g \<in> set (seedLoop cons fb rest proc)" by simp
    from Cons.IH [OF this] show ?thesis by auto
  next
    case False
    obtain sim' proc' where a: "absorbLoop cons fb cur rest ([cur], insert i proc) = (sim', proc')"
      by (cases "absorbLoop cons fb cur rest ([cur], insert i proc)")
    from absorbLoop_extends [OF a] obtain extra where
      e: "sim' = [cur] @ extra" "set extra \<subseteq> snd ` set rest"
      "\<forall>m\<in>set extra. consensusMatch cons cur m \<or> fallbackMatch cons fb cur m"
      by blast
    from Cons.prems ic False a
    have "(length sim' > 1 \<and> g = similarGroup sim') \<or> g \<in> set (seedLoop cons fb rest proc')"
      by (auto split: if_splits)
    then show ?thesis
    proof
      assume h: "length sim' > 1 \<and> g = similarGroup sim'"
      show ?thesis
      proof (intro exI conjI)
        show "g = similarGroup (cur # extra)" using h e(1) by simp
        show "extra \<noteq> []" using h e(1) by auto
        show "set (cur # extra) \<subseteq> snd ` set (ic # rest)" using e(2) ic by auto
        show "\<forall>m\<in>set extra. consensusMatch cons cur m \<or> fallbackMatch cons fb cur m" by (rule e(3))
      qed
    next
      assume "g \<in> set (seedLoop cons fb rest proc')"
      from Cons.IH [OF this] show ?thesis by auto
    qed
  qed
qed

lemma snd_enumerate: "snd ` set (enumerate n xs) = set xs"
  by (induction xs arbitrary: n) (auto simp: image_iff)

lemma detectWithEnterpriseAI_groups:
  assumes "g \<in> set (detectWithEnterpriseAI cons fb imgs)"
  shows "\<exists>seed members. g = similarGroup (seed # members) \<and> members \<noteq> []
     \<and> set (seed # members) \<subseteq> set imgs
     \<and> (\<forall>m\<in>set members. consensusMatch cons seed m \<or> fallbackMatch cons fb seed m)"
  using seedLoop_groups [of g cons fb "enumerate 0 imgs" "{}"] assms
  by (simp add: detectWithEnterpriseAI_def snd_enumerate)

subsection \<open>Exact groups, ranking and the safety pass\<close>




lemma splitHashGroups_exact:
  "g \<in> set (fst (splitHashGroups hs)) \<Longrightarrow>
   \<exists>k imageGroup. (k, imageGroup) \<in> set hs \<and> g = exactGroup imageGroup \<and> length imageGroup > 1"
proof (induction hs)
  case Nil
  then show ?case by simp
next
  case (Cons kg hs)
  obtain k imageGroup where kg: "kg = (k, imageGroup)" by (cases kg)
  obtain ds us where r: "splitHashGroups hs = (ds, us)" by (cases "splitHashGroups hs")
  from Cons.prems kg r
  have "(length imageGroup > 1 \<and> g = exactGroup imageGroup) \<or> g \<in> set (fst (splitHashGroups hs))"
    by (auto split: if_splits)
  then show ?case
  proof
    assume "length imageGroup > 1 \<and> g = exactGroup imageGroup"
    with kg show ?thesis by auto
  next
    assume "g \<in> set (fst (splitHashGroups hs))"
    from Cons.IH [OF this] show ?thesis by auto
  qed
qed




lemma rankImagesWithML_members:
  "rankImagesWithML now gs = Inr gs' \<Longrightarrow> g' \<in> set gs' \<Longrightarrow> \<exists>g\<in>set gs. rankGroup now g = Inr g'"
  by (induction gs arbitrary: gs') (auto split: sum.splits)


lemma rankImagesWithML_total:
  "\<forall>g\<in>set gs. \<exists>g'. rankGroup now g = Inr g' \<Longrightarrow> \<exists>gs'. rankImagesWithML now gs = Inr gs'"
  by (induction gs) (auto split: sum.splits)

lemma verifySafetyBeforeReturn_total:
  "\<forall>g\<in>set gs. \<exists>g'. verifyGroup g = Inr g' \<Longrightarrow> \<exists>gs'. verifySafetyBeforeReturn gs = Inr gs'"
  by (induction gs) (auto split: sum.splits)


lemma rankGroup_total:
  "images g \<noteq> [] \<Longrightarrow> \<exists>g'. rankGroup now g = Inr g' \<and> images g' \<noteq> []"
proof -
  assume ne: "images g \<noteq> []"
  let ?sorted = "sort_key (\<lambda>img. - scoreOf img)
     (map (\<lambda>img. img\<lparr>qualityScore := Some (calculateQualityScore now img)\<rparr>) (images g))"
  have "length ?sorted = length (images g)" by simp
  with ne obtain first others where "?sorted = first # others" by (cases ?sorted) auto
  then show ?thesis by (simp add: rankGroup_def Let_def)
qed

lemma verifyGroup_total:
  "images g \<noteq> [] \<Longrightarrow> \<exists>g'. verifyGroup g = Inr g'"
  by (cases "images g") (simp_all add: verifyGroup_def Let_def)

lemma detectDuplicates_returns:
  assumes "analysisBackupFault env = None"
  shows "\<exists>groups. detectDuplicates cfg env now imgs = Inr groups"
proof -
  obtain ds us where sp: "splitHashGroups (groupByHash imgs) = (ds, us)"
    by (cases "splitHashGroups (groupByHash imgs)")
  define ai where "ai = (if length us > 1
      then detectWithEnterpriseAI (tryConsensus cfg env) (calculatePerceptualHash (imageLib env)) us
      else [])"
  have ne: "images g0 \<noteq> []" if "g0 \<in> set (ds @ ai)" for g0
  proof (cases "g0 \<in> set ds")
    case True
    with splitHashGroups_exact [of g0 "groupByHash imgs"] sp
    show ?thesis by (auto simp: exactGroup_def)
  next
    case False
    with that have "g0 \<in> set (detectWithEnterpriseAI (tryConsensus cfg env)
        (calculatePerceptualHash (imageLib env)) us)"
      by (simp add: ai_def split: if_splits)
    from detectWithEnterpriseAI_groups [OF this] show ?thesis
      by (auto simp: similarGroup_def)
  qed
  then have "\<forall>g\<in>set (ds @ ai). \<exists>g'. rankGroup now g = Inr g'"
    using rankGroup_total by blast
  from rankImagesWithML_total [OF this] obtain ranked where
    rk: "rankImagesWithML now (ds @ ai) = Inr ranked" by blast
  have "\<forall>g\<in>set ranked. \<exists>g'. verifyGroup g = Inr g'"
  proof
    fix g1 assume "g1 \<in> set ranked"
    from rankImagesWithML_members [OF rk this] obtain g0 where
      g0: "g0 \<in> set (ds @ ai)" "rankGroup now g0 = Inr g1" by blast
    from rankGroup_total [OF ne [OF g0(1)], of now] g0(2) have "images g1 \<noteq> []" by auto
    then show "\<exists>g'. verifyGroup g1 = Inr g'" by (rule verifyGroup_total)
  qed
  from verifySafetyBeforeReturn_total [OF this] obtain groups where
    "verifySafetyBeforeReturn ranked = Inr groups" by blast
  with assms sp rk show ?thesis
    by (simp add: detectDuplicates_def ai_def)
qed

lemmas score_defs = calculateQualityScore_def rawQualityScore_def daysSinceModified_def
  scanned_def formatScore_def formatScores_def toLowerCase_def pathDepth_def rankingTime_def
  char_of_eq_iff

lemma qA: "calculateQualityScore rankingTime photoA = 2509597 / 2990080"
  by (simp add: score_defs photoA_def)
lemma qB: "calculateQualityScore rankingTime photoB = 492089 / 598016"
  by (simp add: score_defs photoB_def)

lemma hashes: "hash photoA = ''d41d8cd9''" "hash photoB = ''d41d8cd9''" "hash photoC = ''0cc175b9''"
  by (simp_all add: photoA_def photoB_def photoC_def scanned_def)

lemma notrec: "\<not> recommended photoA" "\<not> recommended photoB" "\<not> recommended photoC"
  by (simp_all add: photoA_def photoB_def photoC_def scanned_def)

lemma run: "detectDuplicates placeholderConfig offlineEnv rankingTime [photoA, photoB, photoC] = Inr [keptGroup]"
  by (simp add: detectDuplicates_def offlineEnv_def groupByHash_def hashes exactGroup_def
      rankGroup_def verifyGroup_def qA qB scoreOf_def keptGroup_def notrec Let_def)














subsection \<open>The claims about detection\<close>











section \<open>Properties of backup, deletion and restore\<close>

subsection \<open>Deletion\<close>





lemma sample_exists:
  "pathExists sampleDisk ''/photos/a.jpg''" "\<not> pathExists sampleDisk ''/photos/x.jpg''"
  by (simp_all add: pathExists_def sampleDisk_def)


subsection \<open>Backup before deletion\<close>

lemma copy_effect:
  "copy env s src dest = Inr s' \<Longrightarrow>
   \<exists>c w. files s src = Some c \<and> copyWrites env src dest c = Inr w \<and> src \<noteq> dest
     \<and> s' = s\<lparr>files := (files s)(dest \<mapsto> w)\<rparr>"
  by (auto simp: copy_def split: if_splits option.splits sum.splits)

lemma backupOne_state:
  "backupOne env bp (s, copied) p = (r, s') \<Longrightarrow>
   s' = s \<or> (\<exists>w. s' = s\<lparr>files := (files s)(copyPathOf bp (length copied) p \<mapsto> w)\<rparr>)"
  by (auto simp: backupOne_def Let_def copyPathOf_def split: if_splits sum.splits dest!: copy_effect)

lemma backupOne_mismatch:
  assumes "files s p = Some c"
    and "\<forall>dest w. copyWrites env p dest c = Inr w \<longrightarrow> sha256 env w \<noteq> sha256 env c"
    and "copyPathOf bp (length copied) p \<noteq> p"
  shows "\<exists>e s'. backupOne env bp (s, copied) p = (Inl e, s')"
proof (cases "copyWrites env p (copyPathOf bp (length copied) p) c")
  case (Inl e)
  with assms(1,3) show ?thesis
    by (simp add: backupOne_def Let_def pathExists_def copy_def copyPathOf_def)
next
  case (Inr w)
  with assms(2) have "sha256 env w \<noteq> sha256 env c" by blast
  with Inr assms(1,3) show ?thesis
    by (simp add: backupOne_def Let_def pathExists_def copy_def copyPathOf_def
        calculateFileHash_def readFile_def)
qed

lemma backupLoop_halts:
  assumes "p \<in> set ps" and "files s p = Some c"
    and "\<forall>dest w. copyWrites env p dest c = Inr w \<longrightarrow> sha256 env w \<noteq> sha256 env c"
    and "\<forall>n q. copyPathOf bp n q \<noteq> p"
  shows "\<exists>e. fst (backupLoop env bp (s, copied) ps) = Inl e"
  using assms(1,2)
proof (induction ps arbitrary: s copied)
  case Nil
  then show ?case by simp
next
  case (Cons q ps)
  obtain r s' where b: "backupOne env bp (s, copied) q = (r, s')"
    by (cases "backupOne env bp (s, copied) q")
  show ?case
  proof (cases r)
    case (Inl e)
    with b show ?thesis by simp
  next
    case (Inr copied')
    have "q \<noteq> p"
    proof
      assume "q = p"
      from backupOne_mismatch [OF Cons.prems(2) assms(3), of bp copied] assms(4)
      obtain e s'' where "backupOne env bp (s, copied) p = (Inl e, s'')" by blast
      with b Inr \<open>q = p\<close> show False by simp
    qed
    with Cons.prems(1) have mem: "p \<in> set ps" by simp
    have "copyPathOf bp (length copied) q \<noteq> p" using assms(4) by blast
    with backupOne_state [OF b] Cons.prems(2) have "files s' p = Some c"
      by auto
    from Cons.IH [OF mem this, of copied'] b Inr show ?thesis by simp
  qed
qed

lemma backupLoop_keeps:
  "backupLoop env bp (s, copied) ps = (r, s') \<Longrightarrow>
   manifests s' = manifests s \<and> deletionLog s' = deletionLog s \<and> operationLog s' = operationLog s
   \<and> dirs s' = dirs s \<and> (\<forall>q. files s q \<noteq> None \<longrightarrow> files s' q \<noteq> None)"
proof (induction ps arbitrary: s copied)
  case Nil
  then show ?case by simp
next
  case (Cons q ps)
  obtain r1 s1 where b: "backupOne env bp (s, copied) q = (r1, s1)"
    by (cases "backupOne env bp (s, copied) q")
  from backupOne_state [OF b]
  have k: "manifests s1 = manifests s \<and> deletionLog s1 = deletionLog s
      \<and> operationLog s1 = operationLog s \<and> dirs s1 = dirs s
      \<and> (\<forall>q. files s q \<noteq> None \<longrightarrow> files s1 q \<noteq> None)"
    by auto
  show ?case
  proof (cases r1)
    case (Inl e)
    with Cons.prems b k show ?thesis by auto
  next
    case (Inr copied')
    with Cons.prems b have "backupLoop env bp (s1, copied') ps = (r, s')" by simp
    from Cons.IH [OF this] k show ?thesis by auto
  qed
qed

lemma sample_copy_paths:
  "copyPathOf (backupPathOf corruptingSys t) n q \<noteq> ''/photos/a.jpg''"
  by (simp add: copyPathOf_def backupPathOf_def join_def corruptingSys_def quietSys_def)

lemma sample_run:
  "fst (deleteFilesHandler corruptingSys 1735689600000 sampleDisk [''/photos/a.jpg'', ''/photos/c.jpg''])
   = Inl (Error ''Backup verification failed for /photos/a.jpg'')"
  by (simp add: deleteFilesHandler_def createPreDeletionBackup_def backupOne_def Let_def
      pathExists_def sampleDisk_def copy_def corruptingSys_def quietSys_def join_def
      calculateFileHash_def readFile_def plainDigest_def split: prod.splits)

subsection \<open>Restore\<close>

lemma restoreOne_state: "snd (restoreOne env (acc, s) e) = restoreStep env s e"
  by (cases acc)
    (simp add: restoreOne_def restoreStep_def Let_def calculateFileHash_def readFile_def
      split: sum.splits option.splits)

lemma foldl_restoreOne_state:
  "snd (foldl (restoreOne env) (acc, s) es) = foldl (restoreStep env) s es"
proof (induction es arbitrary: acc s)
  case Nil
  then show ?case by simp
next
  case (Cons e es)
  obtain acc' s' where st: "restoreOne env (acc, s) e = (acc', s')"
    by (cases "restoreOne env (acc, s) e")
  with restoreOne_state [of env acc s e] have "s' = restoreStep env s e" by simp
  with Cons.IH [of acc' s'] st show ?case by simp
qed

lemma restoreStep_cases:
  "restoreStep env s e = s
   \<or> (files s (originalPath e) = None
      \<and> (\<exists>w. restoreStep env s e = s\<lparr>files := (files s)(originalPath e \<mapsto> w)\<rparr>))"
proof (cases "pathExists s (originalPath e)")
  case True
  then show ?thesis by (simp add: restoreStep_def)
next
  case False
  then have n: "files s (originalPath e) = None" by (simp add: pathExists_def)
  show ?thesis
  proof (cases "copy env s (backupPath e) (originalPath e)")
    case (Inl err)
    with False show ?thesis by (simp add: restoreStep_def)
  next
    case (Inr s')
    from copy_effect [OF this] obtain w where "s' = s\<lparr>files := (files s)(originalPath e \<mapsto> w)\<rparr>"
      by blast
    with False Inr have "restoreStep env s e = s\<lparr>files := (files s)(originalPath e \<mapsto> w)\<rparr>"
      by (simp add: restoreStep_def)
    with n show ?thesis by blast
  qed
qed

lemma restoreStep_grows: "files s \<subseteq>\<^sub>m files (restoreStep env s e)"
proof -
  from restoreStep_cases [of env s e] consider "restoreStep env s e = s"
    | w where "files s (originalPath e) = None"
      "restoreStep env s e = s\<lparr>files := (files s)(originalPath e \<mapsto> w)\<rparr>" by blast
  then show ?thesis by cases (auto simp: map_le_def)
qed

lemma restoreStep_rest:
  "dirs (restoreStep env s e) = dirs s \<and> manifests (restoreStep env s e) = manifests s
   \<and> operationLog (restoreStep env s e) = operationLog s
   \<and> deletionLog (restoreStep env s e) = deletionLog s"
proof -
  from restoreStep_cases [of env s e] consider "restoreStep env s e = s"
    | w where "restoreStep env s e = s\<lparr>files := (files s)(originalPath e \<mapsto> w)\<rparr>" by blast
  then show ?thesis by cases simp_all
qed

lemma restoreStep_new:
  "files (restoreStep env s e) p \<noteq> None \<Longrightarrow> files s p \<noteq> None \<or> p = originalPath e"
proof -
  assume a: "files (restoreStep env s e) p \<noteq> None"
  from restoreStep_cases [of env s e] consider "restoreStep env s e = s"
    | w where "restoreStep env s e = s\<lparr>files := (files s)(originalPath e \<mapsto> w)\<rparr>" by blast
  then show ?thesis using a by cases (simp_all split: if_splits)
qed

lemma foldl_restoreStep_grows: "files s \<subseteq>\<^sub>m files (foldl (restoreStep env) s es)"
proof (induction es arbitrary: s)
  case Nil
  then show ?case by simp
next
  case (Cons e es)
  from restoreStep_grows [of s env e] Cons.IH [of "restoreStep env s e"]
  show ?case by (auto intro: map_le_trans)
qed

lemma foldl_restoreStep_rest:
  "dirs (foldl (restoreStep env) s es) = dirs s
   \<and> manifests (foldl (restoreStep env) s es) = manifests s
   \<and> operationLog (foldl (restoreStep env) s es) = operationLog s
   \<and> deletionLog (foldl (restoreStep env) s es) = deletionLog s"
  by (induction es arbitrary: s) (simp_all add: restoreStep_rest)

lemma foldl_restoreStep_new:
  "files (foldl (restoreStep env) s es) p \<noteq> None \<Longrightarrow>
   files s p \<noteq> None \<or> p \<in> originalPath ` set es"
proof (induction es arbitrary: s)
  case Nil
  then show ?case by simp
next
  case (Cons e es)
  from Cons.prems have "files (foldl (restoreStep env) (restoreStep env s e) es) p \<noteq> None" by simp
  from Cons.IH [OF this] restoreStep_new [of env s e p] show ?case by auto
qed

text \<open>After a whole pass, one more turn for any entry of the manifest changes nothing.\<close>

lemma restoreStep_after_pass:
  assumes e: "e \<in> set es"
    and disj: "backupPath ` set es \<inter> originalPath ` set es = {}"
  shows "restoreStep env (foldl (restoreStep env) s es) e = foldl (restoreStep env) s es"
proof -
  let ?s1 = "foldl (restoreStep env) s es"
  from e obtain pre post where sp: "es = pre @ e # post" by (auto dest: split_list)
  let ?sk = "foldl (restoreStep env) s pre"
  let ?sk' = "restoreStep env ?sk e"
  have s1: "?s1 = foldl (restoreStep env) ?sk' post" by (simp add: sp)
  have le1: "files ?sk \<subseteq>\<^sub>m files ?sk'" by (rule restoreStep_grows)
  have le2: "files ?sk' \<subseteq>\<^sub>m files ?s1" unfolding s1 by (rule foldl_restoreStep_grows)
  show ?thesis
  proof (cases "pathExists ?s1 (originalPath e)")
    case True
    then show ?thesis by (simp add: restoreStep_def)
  next
    case False
    then have n1: "files ?s1 (originalPath e) = None" by (simp add: pathExists_def)
    with le2 have n2: "files ?sk' (originalPath e) = None"
      by (auto simp: map_le_def dom_def)
    with le1 have n3: "files ?sk (originalPath e) = None"
      by (auto simp: map_le_def dom_def)
    have "\<exists>err. copy env ?s1 (backupPath e) (originalPath e) = Inl err"
    proof (rule ccontr)
      assume "\<not> (\<exists>err. copy env ?s1 (backupPath e) (originalPath e) = Inl err)"
      then obtain s2 where "copy env ?s1 (backupPath e) (originalPath e) = Inr s2"
        by (cases "copy env ?s1 (backupPath e) (originalPath e)") auto
      from copy_effect [OF this] obtain c w where
        c: "files ?s1 (backupPath e) = Some c"
        "copyWrites env (backupPath e) (originalPath e) c = Inr w"
        "backupPath e \<noteq> originalPath e" by blast
      have "backupPath e \<notin> originalPath ` set es" using disj e by auto
      with foldl_restoreStep_new [of env s es "backupPath e"] c(1)
      have "files s (backupPath e) \<noteq> None" by auto
      then obtain c0 where c0: "files s (backupPath e) = Some c0" by auto
      have "files s \<subseteq>\<^sub>m files ?sk" by (rule foldl_restoreStep_grows)
      with c0 have ck: "files ?sk (backupPath e) = Some c0"
        by (auto simp: map_le_def dom_def)
      have "files ?sk \<subseteq>\<^sub>m files ?s1" using le1 le2 by (rule map_le_trans)
      with ck c(1) have "c0 = c" by (auto simp: map_le_def dom_def)
      with ck c(2,3) n3 have "files ?sk' (originalPath e) = Some w"
        by (simp add: restoreStep_def pathExists_def copy_def)
      with n2 show False by simp
    qed
    with False show ?thesis by (auto simp: restoreStep_def)
  qed
qed

lemma foldl_restoreStep_fixed:
  "\<forall>e\<in>set es. restoreStep env s e = s \<Longrightarrow> foldl (restoreStep env) s es = s"
  by (induction es) simp_all

lemma restoreOne_existing:
  "pathExists s (originalPath e) \<Longrightarrow>
   restoreOne env ((rs, fs), s) e = ((rs @ [originalPath e], fs), s)"
  by (simp add: restoreOne_def)

lemma restoreOne_lists:
  "restoreStep env s e = s \<Longrightarrow>
   \<exists>rs' fs'. restoreOne env ((rs, fs), s) e = ((rs @ rs', fs @ fs'), s)
     \<and> (pathExists s (originalPath e) \<longrightarrow> rs' = [originalPath e] \<and> fs' = [])
     \<and> (\<not> pathExists s (originalPath e) \<longrightarrow> rs' = [] \<and> failedPath ` set fs' = {originalPath e})"
proof (cases "pathExists s (originalPath e)")
  case True
  then show ?thesis by (simp add: restoreOne_existing)
next
  case False
  assume fx: "restoreStep env s e = s"
  show ?thesis
  proof (cases "copy env s (backupPath e) (originalPath e)")
    case (Inl err)
    with False show ?thesis by (simp add: restoreOne_def)
  next
    case (Inr s')
    from copy_effect [OF this] obtain w where "s' = s\<lparr>files := (files s)(originalPath e \<mapsto> w)\<rparr>"
      by blast
    then have "files s' (originalPath e) = Some w" by simp
    moreover from fx False Inr have "s' = s" by (simp add: restoreStep_def)
    ultimately have "files s (originalPath e) = Some w" by simp
    with False show ?thesis by (simp add: pathExists_def)
  qed
qed

lemma foldl_restoreOne_fixed:
  assumes "\<forall>e\<in>set es. restoreStep env s e = s"
  shows "\<exists>rs' fs'. foldl (restoreOne env) ((rs, fs), s) es = ((rs @ rs', fs @ fs'), s)
     \<and> set rs' = {p \<in> originalPath ` set es. pathExists s p}
     \<and> failedPath ` set fs' = {p \<in> originalPath ` set es. \<not> pathExists s p}"
  using assms
proof (induction es arbitrary: rs fs)
  case Nil
  then show ?case by simp
next
  case (Cons e es)
  from Cons.prems have fx: "restoreStep env s e = s" by simp
  from restoreOne_lists [OF fx, of rs fs] obtain r1 f1 where
    one: "restoreOne env ((rs, fs), s) e = ((rs @ r1, fs @ f1), s)"
    "pathExists s (originalPath e) \<longrightarrow> r1 = [originalPath e] \<and> f1 = []"
    "\<not> pathExists s (originalPath e) \<longrightarrow> r1 = [] \<and> failedPath ` set f1 = {originalPath e}"
    by blast
  from Cons.prems have "\<forall>e\<in>set es. restoreStep env s e = s" by simp
  from Cons.IH [OF this, of "rs @ r1" "fs @ f1"] obtain r2 f2 where
    two: "foldl (restoreOne env) ((rs @ r1, fs @ f1), s) es = (((rs @ r1) @ r2, (fs @ f1) @ f2), s)"
    "set r2 = {p \<in> originalPath ` set es. pathExists s p}"
    "failedPath ` set f2 = {p \<in> originalPath ` set es. \<not> pathExists s p}"
    by blast
  show ?case
  proof (intro exI conjI)
    show "foldl (restoreOne env) ((rs, fs), s) (e # es) = ((rs @ (r1 @ r2), fs @ (f1 @ f2)), s)"
      using one(1) two(1) by simp
    show "set (r1 @ r2) = {p \<in> originalPath ` set (e # es). pathExists s p}"
      using one(2,3) two(2) by (cases "pathExists s (originalPath e)") auto
    show "failedPath ` set (f1 @ f2) = {p \<in> originalPath ` set (e # es). \<not> pathExists s p}"
      using one(2,3) two(3) by (cases "pathExists s (originalPath e)") (auto simp: image_Un)
  qed
qed

lemma restoreStep_log:
  "restoreStep env (st\<lparr>operationLog := l\<rparr>) e = (restoreStep env st e)\<lparr>operationLog := l\<rparr>"
  by (simp add: restoreStep_def pathExists_def copy_def split: option.splits sum.splits)

lemma restoreFromBackup_error_keeps_state:
  "restoreFromBackup env s backupId' = (Inl e, s') \<Longrightarrow> s' = s"
  by (auto simp: restoreFromBackup_def Let_def split: if_splits option.splits prod.splits)

lemma small_digits: "digits 0 = ''0''" "digits (Suc 0) = ''1''" "digits 2 = ''2''"
  by (simp_all add: digits.simps char_of_eq_iff)

lemma handler_run:
  "deleteFilesHandler quietSys 1 sampleDisk [''/photos/b.jpg'']
   = (Inr (\<lparr>deleted = [''/photos/b.jpg''], failed = [], total = 1\<rparr>, ''deletion_1''), trashedDisk)"
  by (simp add: deleteFilesHandler_def createPreDeletionBackup_def backupOne_def Let_def
      pathExists_def sampleDisk_def copy_def quietSys_def join_def basename_def small_digits
      calculateFileHash_def readFile_def verifyFilesExist_def deleteFiles_def deleteOne_def
      trashedDisk_def sampleManifest_def)

lemma restore_run:
  "fst (restoreFromBackup quietSys trashedDisk ''deletion_1'')
   = Inr \<lparr>restoredFrom = ''deletion_1'', restored = [''/photos/b.jpg''], notRestored = [],
          success = True\<rparr>"
  by (simp add: restoreFromBackup_def Let_def join_def quietSys_def dirExists_def trashedDisk_def
      sampleManifest_def restoreOne_def pathExists_def copy_def calculateFileHash_def
      readFile_def split: prod.splits)

subsection \<open>The claims about safety\<close>

text \<open>
  C2.  If for some file of the batch every copy that the disk completes has a digest
  other than that of the file, then \<open>createPreDeletionBackup\<close> raises an error, and so
  does the handler of \<open>delete-files\<close>, which stops before the deletion: no manifest is
  written, nothing is logged as deleted, and every file that was on the disk is still
  there.  The file itself is no copy destination of the backup.
\<close>

theorem backup_mismatch_halts_deletion:
  assumes "p \<in> set filesToDelete" and "files s p = Some c"
    and "\<forall>dest w. copyWrites env p dest c = Inr w \<longrightarrow> sha256 env w \<noteq> sha256 env c"
    and "\<forall>n q. copyPathOf (backupPathOf env timestamp) n q \<noteq> p"
  shows "\<exists>e s'. createPreDeletionBackup env timestamp s filesToDelete = (Inl e, s')
        \<and> deleteFilesHandler env timestamp s filesToDelete = (Inl e, s')
        \<and> manifests s' = manifests s \<and> deletionLog s' = deletionLog s
        \<and> (\<forall>q. files s q \<noteq> None \<longrightarrow> files s' q \<noteq> None)"
proof -
  let ?bp = "backupPathOf env timestamp"
  let ?s0 = "s\<lparr>dirs := insert ?bp (dirs s)\<rparr>"
  have f0: "files ?s0 p = Some c" using assms(2) by simp
  from backupLoop_halts [OF assms(1) f0 assms(3,4), of "[]"]
  obtain e where e: "fst (backupLoop env ?bp (?s0, []) filesToDelete) = Inl e" by blast
  obtain s' where l: "backupLoop env ?bp (?s0, []) filesToDelete = (Inl e, s')"
    using e by (cases "backupLoop env ?bp (?s0, []) filesToDelete") auto
  from backupLoop_keeps [OF l]
  have k: "manifests s' = manifests s" "deletionLog s' = deletionLog s"
    "\<forall>q. files s q \<noteq> None \<longrightarrow> files s' q \<noteq> None"
    by auto
  have c: "createPreDeletionBackup env timestamp s filesToDelete = (Inl e, s')"
    using l by (simp add: createPreDeletionBackup_def backupPathOf_def Let_def)
  then have "deleteFilesHandler env timestamp s filesToDelete = (Inl e, s')"
    by (simp add: deleteFilesHandler_def)
  with c k show ?thesis by blast
qed

text \<open>A batch of two files on a disk whose copies lose their last byte.\<close>

theorem backup_mismatch_halts_deletion_witness:
  "fst (deleteFilesHandler corruptingSys 1735689600000 sampleDisk
          [''/photos/a.jpg'', ''/photos/c.jpg''])
     = Inl (Error ''Backup verification failed for /photos/a.jpg'')
   \<and> manifests (snd (deleteFilesHandler corruptingSys 1735689600000 sampleDisk
          [''/photos/a.jpg'', ''/photos/c.jpg''])) = manifests sampleDisk
   \<and> deletionLog (snd (deleteFilesHandler corruptingSys 1735689600000 sampleDisk
          [''/photos/a.jpg'', ''/photos/c.jpg''])) = deletionLog sampleDisk"
proof -
  have m: "''/photos/a.jpg'' \<in> set [''/photos/a.jpg'', ''/photos/c.jpg'']" by simp
  have f: "files sampleDisk ''/photos/a.jpg'' = Some [1, 2, 3]" by (simp add: sampleDisk_def)
  have w: "\<forall>dest w. copyWrites corruptingSys ''/photos/a.jpg'' dest [1, 2, 3] = Inr w
      \<longrightarrow> sha256 corruptingSys w \<noteq> sha256 corruptingSys [1, 2, 3]"
    by (auto simp: corruptingSys_def quietSys_def plainDigest_def)
  have d: "\<forall>n q. copyPathOf (backupPathOf corruptingSys 1735689600000) n q \<noteq> ''/photos/a.jpg''"
    by (simp add: sample_copy_paths)
  from backup_mismatch_halts_deletion [OF m f w d] obtain e s' where
    "deleteFilesHandler corruptingSys 1735689600000 sampleDisk
       [''/photos/a.jpg'', ''/photos/c.jpg''] = (Inl e, s')"
    "manifests s' = manifests sampleDisk" "deletionLog s' = deletionLog sampleDisk"
    by blast
  with sample_run show ?thesis by simp
qed

text \<open>
  C8.  The restore is idempotent.  After a first call has returned, a second call on the
  same identifier returns too and leaves the files as they are; it reports as restored
  exactly the original paths of the manifest that exist, and as failed only paths that
  still do not exist.  An entry whose original path exists is put on the restored list
  without a copy, and its file is left as it was.  The manifest is one that the backup
  writes: no backup path of it is an original path of it.
\<close>

theorem restoreFromBackup_idempotent:
  assumes "restoreFromBackup env s backupId' = (Inr r1, s1)"
    and "manifests s (join (join (backupDir env) ''pre-deletion'') backupId') = Some m"
    and "backupPath ` set (entries m) \<inter> originalPath ` set (entries m) = {}"
  shows "\<exists>r2 s2. restoreFromBackup env s1 backupId' = (Inr r2, s2)
      \<and> files s2 = files s1
      \<and> set (restored r2) = {p \<in> originalPath ` set (entries m). pathExists s1 p}
      \<and> failedPath ` set (notRestored r2) = {p \<in> originalPath ` set (entries m). \<not> pathExists s1 p}
      \<and> (\<forall>e\<in>set (entries m). pathExists s (originalPath e) \<longrightarrow>
            files s1 (originalPath e) = files s (originalPath e)
            \<and> restoreOne env ((rs, fs), s) e = ((rs @ [originalPath e], fs), s))"
proof -
  let ?bp = "join (join (backupDir env) ''pre-deletion'') backupId'"
  let ?es = "entries m"
  let ?sP = "foldl (restoreStep env) s ?es"
  from assms(1) have d: "dirExists s ?bp"
    by (auto simp: restoreFromBackup_def Let_def split: if_splits)
  obtain rs1 fs1 sQ where p1: "foldl (restoreOne env) (([], []), s) ?es = ((rs1, fs1), sQ)"
    by (cases "foldl (restoreOne env) (([], []), s) ?es") auto
  from foldl_restoreOne_state [of env "([], [])" s ?es] p1 have sQ: "sQ = ?sP" by simp
  define l1 where "l1 = operationLog ?sP @
      [\<lparr>logOperation = ''restore-from-backup'', logBackupId = backupId',
        status = (if length fs1 > 0 then ''partial'' else ''completed''),
        itemCount = length rs1, failedCount = length fs1\<rparr>]"
  from assms(1,2) d p1 sQ have s1: "s1 = ?sP\<lparr>operationLog := l1\<rparr>"
    by (simp add: restoreFromBackup_def Let_def l1_def)
  have rest: "dirs ?sP = dirs s" "manifests ?sP = manifests s"
    using foldl_restoreStep_rest [of env s ?es] by simp_all
  have d1: "dirExists s1 ?bp" using d rest s1 by (simp add: dirExists_def)
  have m1: "manifests s1 ?bp = Some m" using assms(2) rest s1 by simp
  have fixed: "\<forall>e\<in>set ?es. restoreStep env s1 e = s1"
  proof
    fix e assume "e \<in> set ?es"
    from restoreStep_after_pass [OF this assms(3), of env s]
    show "restoreStep env s1 e = s1" by (simp add: s1 restoreStep_log)
  qed
  from foldl_restoreOne_fixed [OF fixed, of "[]" "[]"] obtain rs2 fs2 where
    p2: "foldl (restoreOne env) (([], []), s1) ?es = ((rs2, fs2), s1)"
    "set rs2 = {p \<in> originalPath ` set ?es. pathExists s1 p}"
    "failedPath ` set fs2 = {p \<in> originalPath ` set ?es. \<not> pathExists s1 p}"
    by auto
  define r2 where "r2 = \<lparr>restoredFrom = backupId', restored = rs2, notRestored = fs2,
      success = (length fs2 = 0)\<rparr>"
  define s2 where "s2 = s1\<lparr>operationLog := operationLog s1 @
      [\<lparr>logOperation = ''restore-from-backup'', logBackupId = backupId',
        status = (if length fs2 > 0 then ''partial'' else ''completed''),
        itemCount = length rs2, failedCount = length fs2\<rparr>]\<rparr>"
  have second: "restoreFromBackup env s1 backupId' = (Inr r2, s2)"
    using d1 m1 p2(1) by (simp add: restoreFromBackup_def Let_def r2_def s2_def)
  have kept: "files s1 (originalPath e) = files s (originalPath e)
      \<and> restoreOne env ((rs, fs), s) e = ((rs @ [originalPath e], fs), s)"
    if "e \<in> set ?es" "pathExists s (originalPath e)" for e
  proof -
    from that(2) obtain c where c: "files s (originalPath e) = Some c"
      by (auto simp: pathExists_def)
    have "files s \<subseteq>\<^sub>m files ?sP" by (rule foldl_restoreStep_grows)
    with c have "files ?sP (originalPath e) = Some c" by (auto simp: map_le_def dom_def)
    with c s1 restoreOne_existing [OF that(2), of env rs fs] show ?thesis by simp
  qed
  show ?thesis
  proof (intro exI conjI)
    show "restoreFromBackup env s1 backupId' = (Inr r2, s2)" by (rule second)
    show "files s2 = files s1" by (simp add: s2_def)
    show "set (restored r2) = {p \<in> originalPath ` set ?es. pathExists s1 p}"
      using p2(2) by (simp add: r2_def)
    show "failedPath ` set (notRestored r2) = {p \<in> originalPath ` set ?es. \<not> pathExists s1 p}"
      using p2(3) by (simp add: r2_def)
    show "\<forall>e\<in>set ?es. pathExists s (originalPath e) \<longrightarrow>
        files s1 (originalPath e) = files s (originalPath e)
        \<and> restoreOne env ((rs, fs), s) e = ((rs @ [originalPath e], fs), s)"
      using kept by blast
  qed
qed

text \<open>Restoring \<open>/photos/b.jpg\<close> twice.\<close>

theorem restoreFromBackup_idempotent_witness:
  "fst (restoreFromBackup quietSys trashedDisk ''deletion_1'')
     = Inr \<lparr>restoredFrom = ''deletion_1'', restored = [''/photos/b.jpg''], notRestored = [],
            success = True\<rparr>
   \<and> files (snd (restoreFromBackup quietSys
               (snd (restoreFromBackup quietSys trashedDisk ''deletion_1'')) ''deletion_1''))
     = files (snd (restoreFromBackup quietSys trashedDisk ''deletion_1''))"
proof -
  obtain s1 where run1: "restoreFromBackup quietSys trashedDisk ''deletion_1''
      = (Inr \<lparr>restoredFrom = ''deletion_1'', restored = [''/photos/b.jpg''], notRestored = [],
               success = True\<rparr>, s1)"
    using restore_run by (cases "restoreFromBackup quietSys trashedDisk ''deletion_1''") auto
  have m: "manifests trashedDisk (join (join (backupDir quietSys) ''pre-deletion'') ''deletion_1'')
      = Some sampleManifest"
    by (simp add: trashedDisk_def join_def quietSys_def)
  have disj: "backupPath ` set (entries sampleManifest) \<inter> originalPath ` set (entries sampleManifest) = {}"
    by (simp add: sampleManifest_def)
  from restoreFromBackup_idempotent [OF run1 m disj] obtain r2 s2 where
    "restoreFromBackup quietSys s1 ''deletion_1'' = (Inr r2, s2)" "files s2 = files s1"
    by blast
  with run1 restore_run show ?thesis by simp
qed




section \<open>Properties of exact grouping\<close>

lemma map_of_pushToKey:
  "map_of (pushToKey k v m) k'
   = (if k' = k then Some ((case map_of m k of None \<Rightarrow> [] | Some g \<Rightarrow> g) @ [v]) else map_of m k')"
  by (induction m) auto

lemma keys_pushToKey: "fst ` set (pushToKey k v m) = insert k (fst ` set m)"
proof (induction m)
  case Nil
  then show ?case by simp
next
  case (Cons e m)
  obtain k' g where e: "e = (k', g)" by (cases e)
  show ?case
  proof (cases "k = k'")
    case True
    with e show ?thesis by auto
  next
    case False
    with e Cons.IH show ?thesis by auto
  qed
qed

lemma distinct_pushToKey: "distinct (map fst m) \<Longrightarrow> distinct (map fst (pushToKey k v m))"
proof (induction m)
  case Nil
  then show ?case by simp
next
  case (Cons e m)
  obtain k' g where e: "e = (k', g)" by (cases e)
  show ?case
  proof (cases "k = k'")
    case True
    with e Cons.prems show ?thesis by simp
  next
    case False
    from Cons.prems e have "k' \<notin> fst ` set m" "distinct (map fst m)" by auto
    with False keys_pushToKey [of k v m] Cons.IH e show ?thesis by auto
  qed
qed

lemma storedUnder_skip: "kf x = None \<Longrightarrow> storedUnder kf k (x # xs) = storedUnder kf k xs"
  by (simp add: storedUnder_def map_filter_simps)

lemma storedUnder_push:
  "kf x = Some (k', v) \<Longrightarrow>
   storedUnder kf k (x # xs) = (if k' = k then v # storedUnder kf k xs else storedUnder kf k xs)"
  by (simp add: storedUnder_def map_filter_simps)

lemma storedUnder_Nil: "storedUnder kf k [] = []"
  by (simp add: storedUnder_def map_filter_simps)

lemma groupWith_lookup:
  "map_of (groupWith kf m xs) k
   = (case map_of m k of
        None \<Rightarrow> (if storedUnder kf k xs = [] then None else Some (storedUnder kf k xs))
      | Some g \<Rightarrow> Some (g @ storedUnder kf k xs))"
proof (induction xs arbitrary: m)
  case Nil
  then show ?case by (simp add: groupWith_def storedUnder_Nil split: option.splits)
next
  case (Cons x xs)
  show ?case
  proof (cases "kf x")
    case None
    then have g: "groupWith kf m (x # xs) = groupWith kf m xs" by (simp add: groupWith_def)
    have su: "storedUnder kf k (x # xs) = storedUnder kf k xs"
      using None by (rule storedUnder_skip)
    show ?thesis unfolding g su by (rule Cons.IH)
  next
    case (Some kv)
    obtain k' v where kv: "kv = (k', v)" by (cases kv)
    with Some have kx: "kf x = Some (k', v)" by simp
    then have g: "groupWith kf m (x # xs) = groupWith kf (pushToKey k' v m) xs"
      by (simp add: groupWith_def)
    show ?thesis
    proof (cases "k' = k")
      case True
      have su: "storedUnder kf k (x # xs) = v # storedUnder kf k xs"
        using storedUnder_push [of kf x k' v k xs] kx True by simp
      have mp: "map_of (pushToKey k' v m) k
          = Some ((case map_of m k of None \<Rightarrow> [] | Some g \<Rightarrow> g) @ [v])"
        using True by (simp add: map_of_pushToKey)
      show ?thesis unfolding g su Cons.IH [of "pushToKey k' v m"] mp
        by (cases "map_of m k") simp_all
    next
      case False
      have su: "storedUnder kf k (x # xs) = storedUnder kf k xs"
        using storedUnder_push [of kf x k' v k xs] kx False by simp
      have mp: "map_of (pushToKey k' v m) k = map_of m k"
        using False by (simp add: map_of_pushToKey)
      show ?thesis unfolding g su Cons.IH [of "pushToKey k' v m"] mp by (rule refl)
    qed
  qed
qed

lemma groupWith_distinct: "distinct (map fst m) \<Longrightarrow> distinct (map fst (groupWith kf m xs))"
proof (induction xs arbitrary: m)
  case Nil
  then show ?case by (simp add: groupWith_def)
next
  case (Cons x xs)
  show ?case
  proof (cases "kf x")
    case None
    then have "groupWith kf m (x # xs) = groupWith kf m xs" by (simp add: groupWith_def)
    with Cons show ?thesis by simp
  next
    case (Some kv)
    obtain k' v where kv: "kv = (k', v)" by (cases kv)
    with Some have "groupWith kf m (x # xs) = groupWith kf (pushToKey k' v m) xs"
      by (simp add: groupWith_def)
    with Cons.IH [of "pushToKey k' v m"] Cons.prems show ?thesis
      by (simp add: distinct_pushToKey)
  qed
qed

lemma groupWith_members:
  "(k, g) \<in> set (groupWith kf [] xs) \<longleftrightarrow> g = storedUnder kf k xs \<and> g \<noteq> []"
proof -
  have d: "distinct (map fst (groupWith kf [] xs))" by (rule groupWith_distinct) simp
  have "(k, g) \<in> set (groupWith kf [] xs) \<longleftrightarrow> map_of (groupWith kf [] xs) k = Some g"
    using d by simp
  then show ?thesis by (auto simp: groupWith_lookup)
qed

lemma groupByHash_groupWith: "groupByHash imgs = groupWith digestKey [] imgs"
  by (simp add: groupByHash_def groupWith_def digestKey_def)

lemma groupByHashSimplified_groupWith:
  "groupByHashSimplified env s imgs = groupWith (sizeDigestKey env s) [] imgs"
proof -
  have "(\<lambda>hashMap img. case readFile s (path img) of Inl e \<Rightarrow> hashMap
           | Inr buffer \<Rightarrow> pushToKey (combinedHash env buffer) (hashedImage env img buffer) hashMap)
      = (\<lambda>hashMap x. case sizeDigestKey env s x of None \<Rightarrow> hashMap
           | Some (k, v) \<Rightarrow> pushToKey k v hashMap)"
    by (intro ext) (simp add: readFile_def sizeDigestKey_def split: option.splits)
  then show ?thesis by (simp add: groupByHashSimplified_def groupWith_def)
qed

lemma storedUnder_iff:
  "v \<in> set (storedUnder kf k xs) \<longleftrightarrow> (\<exists>x\<in>set xs. kf x = Some (k, v))"
proof (induction xs)
  case Nil
  then show ?case by (simp add: storedUnder_Nil)
next
  case (Cons x xs)
  show ?case
  proof (cases "kf x")
    case None
    with Cons.IH storedUnder_skip [of kf x k xs] show ?thesis by auto
  next
    case (Some kv)
    obtain k' v' where kv: "kv = (k', v')" by (cases kv)
    with Some storedUnder_push [of kf x k' v' k xs] Cons.IH show ?thesis by auto
  qed
qed

lemma storedUnder_append:
  "storedUnder kf k (xs @ ys) = storedUnder kf k xs @ storedUnder kf k ys"
  by (simp add: storedUnder_def map_filter_def)

lemma storedUnder_two:
  assumes "i < j" and "j < length xs"
    and "kf (xs ! i) = Some (k, v)" and "kf (xs ! j) = Some (k, w)"
  shows "2 \<le> length (storedUnder kf k xs)"
proof -
  have xs: "xs = take j xs @ xs ! j # drop (Suc j) xs"
    using assms(2) by (simp add: id_take_nth_drop)
  have "xs ! i \<in> set (take j xs)"
    using assms(1,2) by (auto simp: in_set_conv_nth intro!: exI [of _ i])
  with assms(3) have "v \<in> set (storedUnder kf k (take j xs))"
    by (auto simp: storedUnder_iff)
  then have a: "1 \<le> length (storedUnder kf k (take j xs))"
    by (cases "storedUnder kf k (take j xs)") auto
  have b: "storedUnder kf k (xs ! j # drop (Suc j) xs) = w # storedUnder kf k (drop (Suc j) xs)"
    using storedUnder_push [of kf "xs ! j" k w k "drop (Suc j) xs"] assms(4) by simp
  have "length (storedUnder kf k xs)
      = length (storedUnder kf k (take j xs)) + length (storedUnder kf k (xs ! j # drop (Suc j) xs))"
    by (subst xs) (simp only: storedUnder_append length_append)
  with a b show ?thesis by simp
qed

lemma splitHashGroupsSimplified_exact:
  "(k, imageGroup) \<in> set hs \<Longrightarrow> length imageGroup > 1 \<Longrightarrow>
   exactGroupSimplified imageGroup \<in> set (fst (splitHashGroupsSimplified hs))"
proof (induction hs)
  case Nil
  then show ?case by simp
next
  case (Cons e hs)
  obtain k' g where e: "e = (k', g)" by (cases e)
  obtain ds us where r: "splitHashGroupsSimplified hs = (ds, us)"
    by (cases "splitHashGroupsSimplified hs")
  from Cons.prems(1) e have "(k, imageGroup) = (k', g) \<or> (k, imageGroup) \<in> set hs" by simp
  then show ?case
  proof
    assume "(k, imageGroup) = (k', g)"
    with Cons.prems(2) e r show ?thesis by simp
  next
    assume "(k, imageGroup) \<in> set hs"
    from Cons.IH [OF this Cons.prems(2)] e r show ?thesis by (simp split: if_splits)
  qed
qed

lemma splitHashGroups_has_exact:
  "(k, imageGroup) \<in> set hs \<Longrightarrow> length imageGroup > 1 \<Longrightarrow>
   exactGroup imageGroup \<in> set (fst (splitHashGroups hs))"
proof (induction hs)
  case Nil
  then show ?case by simp
next
  case (Cons e hs)
  obtain k' g where e: "e = (k', g)" by (cases e)
  obtain ds us where r: "splitHashGroups hs = (ds, us)" by (cases "splitHashGroups hs")
  from Cons.prems(1) e have "(k, imageGroup) = (k', g) \<or> (k, imageGroup) \<in> set hs" by simp
  then show ?case
  proof
    assume "(k, imageGroup) = (k', g)"
    with Cons.prems(2) e r show ?thesis by simp
  next
    assume "(k, imageGroup) \<in> set hs"
    from Cons.IH [OF this Cons.prems(2)] e r show ?thesis by (simp split: if_splits)
  qed
qed

lemma readDigits_digits: "readDigits (digits n) = n"
proof (induction n rule: digits.induct)
  case (1 n)
  show ?case
  proof (cases "n < 10")
    case True
    then have "digits n = [char_of (48 + n)]" by (simp add: digits.simps)
    with True show ?thesis by (simp add: readDigits_def)
  next
    case False
    then have d: "digits n = digits (n div 10) @ [char_of (48 + n mod 10)]"
      by (subst digits.simps) simp
    have "(48 + n mod 10) mod 256 = 48 + n mod 10"
      by (rule mod_less) (simp add: less_le_trans [OF add_strict_left_mono [OF mod_less_divisor]])
    with "1.IH" [OF False] show ?thesis
      by (simp add: d readDigits_def)
  qed
qed

lemma digits_inj:
  assumes "digits n = digits m"
  shows "n = m"
proof -
  from assms have "readDigits (digits n) = readDigits (digits m)" by (rule arg_cong)
  then show ?thesis by (simp only: readDigits_digits)
qed

lemma digits_no_dash: "CHR ''-'' \<notin> set (digits n)"
proof (induction n rule: digits.induct)
  case (1 n)
  have nd: "char_of (48 + k) \<noteq> CHR ''-''" if "k < 10" for k :: nat
  proof
    assume "char_of (48 + k) = CHR ''-''"
    then have "of_char (char_of (48 + k)) = (of_char (CHR ''-'') :: nat)" by simp
    with that show False by simp
  qed
  show ?case
  proof (cases "n < 10")
    case True
    then have "digits n = [char_of (48 + n)]" by (simp add: digits.simps)
    with nd [OF True] show ?thesis by simp
  next
    case False
    then have d: "digits n = digits (n div 10) @ [char_of (48 + n mod 10)]"
      by (subst digits.simps) simp
    have "n mod 10 < 10" by simp
    from nd [OF this] "1.IH" [OF False] show ?thesis by (simp add: d)
  qed
qed

lemma combinedHash_size:
  assumes "combinedHash env c1 = combinedHash env c2"
  shows "length c1 = length c2"
proof -
  have tw: "CHR ''-'' \<notin> set ds \<Longrightarrow> takeWhile (\<lambda>c. c \<noteq> CHR ''-'') (ds @ ''-'' @ h) = ds"
    for ds h :: string
    by (induction ds) auto
  have t: "takeWhile (\<lambda>c. c \<noteq> CHR ''-'') (digits n @ ''-'' @ h) = digits n" for n h
    using digits_no_dash [of n] by (rule tw)
  from assms have "digits (length c1) @ ''-'' @ md5 env c1 = digits (length c2) @ ''-'' @ md5 env c2"
    by (simp add: combinedHash_def)
  then have "takeWhile (\<lambda>c. c \<noteq> CHR ''-'') (digits (length c1) @ ''-'' @ md5 env c1)
      = takeWhile (\<lambda>c. c \<noteq> CHR ''-'') (digits (length c2) @ ''-'' @ md5 env c2)"
    by simp
  then have "digits (length c1) = digits (length c2)" by (simp only: t)
  then show ?thesis by (rule digits_inj)
qed

lemma rankImagesWithML_forward:
  "rankImagesWithML now gs = Inr gs' \<Longrightarrow> g \<in> set gs \<Longrightarrow> \<exists>g'\<in>set gs'. rankGroup now g = Inr g'"
  by (induction gs arbitrary: gs') (auto split: sum.splits)

lemma verifySafetyBeforeReturn_forward:
  "verifySafetyBeforeReturn gs = Inr gs' \<Longrightarrow> g \<in> set gs \<Longrightarrow> \<exists>g'\<in>set gs'. verifyGroup g = Inr g'"
  by (induction gs arbitrary: gs') (auto split: sum.splits)

lemma rankGroup_keeps:
  assumes "rankGroup now g = Inr g'"
  shows "gtype g' = gtype g \<and> gsimilarity g' = gsimilarity g \<and> gconfidence g' = gconfidence g
       \<and> path ` set (images g') = path ` set (images g)"
proof -
  let ?scored = "map (\<lambda>img. img\<lparr>qualityScore := Some (calculateQualityScore now img)\<rparr>) (images g)"
  let ?sorted = "sort_key (\<lambda>img. - scoreOf img) ?scored"
  from assms obtain first others where s: "?sorted = first # others"
    and g': "g' = g\<lparr>images := first\<lparr>recommended := True,
        recommendationReason := Some ''Highest quality score''\<rparr> # others\<rparr>"
    by (auto simp: rankGroup_def Let_def split: list.splits)
  have "path ` set ?sorted = path ` set (images g)"
    by (simp add: image_image)
  with s have "path ` set (first # others) = path ` set (images g)" by simp
  with g' show ?thesis by simp
qed

lemma verifyGroup_paths:
  assumes "verifyGroup g = Inr g'"
  shows "gtype g' = gtype g \<and> gsimilarity g' = gsimilarity g \<and> gconfidence g' = gconfidence g
       \<and> path ` set (images g') = path ` set (images g)"
proof (cases "images g")
  case Nil
  with assms show ?thesis by (simp add: verifyGroup_def Let_def)
next
  case (Cons first others)
  have "path ` set (map (\<lambda>img. img\<lparr>recommended := False\<rparr>) others) = path ` set others"
    by (simp add: image_image)
  with assms Cons show ?thesis
    by (auto simp: verifyGroup_def Let_def split: if_splits)
qed

lemma enterprise_groups_equal_digests:
  assumes "i < j" and "j < length imgs" and "hash (imgs ! i) = hash (imgs ! j)"
    and "analysisBackupFault env = None"
  shows "\<exists>groups g. detectDuplicates cfg env now imgs = Inr groups \<and> g \<in> set groups
      \<and> gtype g = ''exact'' \<and> gsimilarity g = 1 \<and> gconfidence g = ''absolute''
      \<and> path (imgs ! i) \<in> path ` set (images g) \<and> path (imgs ! j) \<in> path ` set (images g)"
proof -
  let ?k = "hash (imgs ! i)"
  let ?grp = "storedUnder digestKey ?k imgs"
  have ki: "digestKey (imgs ! i) = Some (?k, imgs ! i)" by (simp add: digestKey_def)
  have kj: "digestKey (imgs ! j) = Some (?k, imgs ! j)" using assms(3) by (simp add: digestKey_def)
  from storedUnder_two [OF assms(1,2) ki kj] have len: "2 \<le> length ?grp" .
  from assms(1,2) have "imgs ! i \<in> set imgs" "imgs ! j \<in> set imgs" by simp_all
  with ki kj have mem: "imgs ! i \<in> set ?grp" "imgs ! j \<in> set ?grp"
    by (auto simp: storedUnder_iff)
  from len have "?grp \<noteq> []" by auto
  then have "(?k, ?grp) \<in> set (groupByHash imgs)"
    by (simp add: groupByHash_groupWith groupWith_members)
  moreover from len have "length ?grp > 1" by simp
  ultimately have ex: "exactGroup ?grp \<in> set (fst (splitHashGroups (groupByHash imgs)))"
    by (rule splitHashGroups_has_exact)
  obtain ds us where sp: "splitHashGroups (groupByHash imgs) = (ds, us)"
    by (cases "splitHashGroups (groupByHash imgs)")
  define ai where "ai = (if length us > 1
      then detectWithEnterpriseAI (tryConsensus cfg env) (calculatePerceptualHash (imageLib env)) us
      else [])"
  from detectDuplicates_returns [OF assms(4), of cfg now imgs] obtain groups where
    run: "detectDuplicates cfg env now imgs = Inr groups" by blast
  with assms(4) sp obtain ranked where
    rk: "rankImagesWithML now (ds @ ai) = Inr ranked" and
    vf: "verifySafetyBeforeReturn ranked = Inr groups"
    by (auto simp: detectDuplicates_def ai_def split: sum.splits)
  from ex sp have "exactGroup ?grp \<in> set (ds @ ai)" by simp
  from rankImagesWithML_forward [OF rk this] obtain g1 where
    g1: "g1 \<in> set ranked" "rankGroup now (exactGroup ?grp) = Inr g1" by blast
  from verifySafetyBeforeReturn_forward [OF vf g1(1)] obtain g where
    g: "g \<in> set groups" "verifyGroup g1 = Inr g" by blast
  from rankGroup_keeps [OF g1(2)] verifyGroup_paths [OF g(2)]
  have "gtype g = ''exact''" "gsimilarity g = 1" "gconfidence g = ''absolute''"
    "path ` set (images g) = path ` set ?grp"
    by (simp_all add: exactGroup_def)
  with mem run g(1) show ?thesis by blast
qed

lemma simplified_groups_identical_files:
  assumes "i < j" and "j < length imgs"
    and "files s (path (imgs ! i)) = Some c" and "files s (path (imgs ! j)) = Some c"
  shows "\<exists>g\<in>set (fst (splitHashGroupsSimplified (groupByHashSimplified env s imgs))).
      stype g = ''exact'' \<and> ssimilarity g = 1 \<and> sconfidence g = ''absolute''
      \<and> hashedImage env (imgs ! i) c \<in> set (simages g)
      \<and> hashedImage env (imgs ! j) c \<in> set (simages g)"
proof -
  let ?kf = "sizeDigestKey env s"
  let ?k = "combinedHash env c"
  let ?grp = "storedUnder ?kf ?k imgs"
  have ki: "?kf (imgs ! i) = Some (?k, hashedImage env (imgs ! i) c)"
    using assms(3) by (simp add: sizeDigestKey_def)
  have kj: "?kf (imgs ! j) = Some (?k, hashedImage env (imgs ! j) c)"
    using assms(4) by (simp add: sizeDigestKey_def)
  from storedUnder_two [OF assms(1,2) ki kj] have len: "2 \<le> length ?grp" .
  from assms(1,2) have "imgs ! i \<in> set imgs" "imgs ! j \<in> set imgs" by simp_all
  with ki kj have mem: "hashedImage env (imgs ! i) c \<in> set ?grp"
    "hashedImage env (imgs ! j) c \<in> set ?grp"
    by (auto simp: storedUnder_iff)
  from len have "?grp \<noteq> []" by auto
  then have "(?k, ?grp) \<in> set (groupByHashSimplified env s imgs)"
    by (simp add: groupByHashSimplified_groupWith groupWith_members)
  moreover from len have "length ?grp > 1" by simp
  ultimately have "exactGroupSimplified ?grp
      \<in> set (fst (splitHashGroupsSimplified (groupByHashSimplified env s imgs)))"
    by (rule splitHashGroupsSimplified_exact)
  with mem show ?thesis
    by (intro bexI [of _ "exactGroupSimplified ?grp"]) (simp_all add: exactGroupSimplified_def)
qed

lemma simplified_group_sizes:
  assumes "(k, grp) \<in> set (groupByHashSimplified env s imgs)" and "x \<in> set grp" and "y \<in> set grp"
  shows "fileSize x = fileSize y"
proof -
  from assms(1) have grp: "grp = storedUnder (sizeDigestKey env s) k imgs"
    by (simp add: groupByHashSimplified_groupWith groupWith_members)
  have sz: "\<exists>c. combinedHash env c = k \<and> fileSize z = length c" if "z \<in> set grp" for z
  proof -
    from that grp obtain img where "sizeDigestKey env s img = Some (k, z)"
      by (auto simp: storedUnder_iff)
    then show ?thesis
      by (auto simp: sizeDigestKey_def hashedImage_def split: option.splits)
  qed
  from sz [OF assms(2)] sz [OF assms(3)] obtain c1 c2 where
    "combinedHash env c1 = k" "fileSize x = length c1"
    "combinedHash env c2 = k" "fileSize y = length c2" by blast
  with combinedHash_size [of env c1 c2] show ?thesis by simp
qed

lemma sample_paths:
  "path photoA = ''/photos/a.jpg''" "path photoB = ''/photos/b.jpg''"
  "path photoC = ''/photos/c.jpg''"
  by (simp_all add: photoA_def photoB_def photoC_def scanned_def)

lemma sample_keys:
  "combinedHash quietSys [1, 2, 3] \<noteq> combinedHash quietSys [9, 9]"
proof
  assume "combinedHash quietSys [1, 2, 3] = combinedHash quietSys [9, 9]"
  from combinedHash_size [OF this] show False by simp
qed

lemma sample_grouping:
  "groupByHashSimplified quietSys sampleDisk [photoA, photoB, photoC]
   = [(combinedHash quietSys [1, 2, 3],
       [hashedImage quietSys photoA [1, 2, 3], hashedImage quietSys photoB [1, 2, 3]]),
      (combinedHash quietSys [9, 9], [hashedImage quietSys photoC [9, 9]])]"
  using sample_keys
  by (simp add: groupByHashSimplified_def readFile_def sample_paths sampleDisk_def)

lemma qD: "calculateQualityScore rankingTime photoD = 1867981 / 2392064"
  by (simp add: score_defs photoD_def)

subsection \<open>The claim about exact grouping\<close>

text \<open>
  C7, as the code has it.  The local-only detector keys a file by its byte size and the
  digest of its content: two readable files with the same bytes, whatever their names
  and paths, are in one exact group with similarity 1 and confidence \<open>absolute\<close>, and
  the members of one group all have the same byte size.  The detector that the
  application runs keys an image by the \<open>hash\<close> of its record alone: two records with
  the same hash are in one exact group with similarity 1 and confidence \<open>absolute\<close>,
  and the size is not consulted.
\<close>

theorem exact_grouping_keys:
  "(\<forall>i j c. i < j \<and> j < length imgs \<and> files s (path (imgs ! i)) = Some c
        \<and> files s (path (imgs ! j)) = Some c \<longrightarrow>
      (\<exists>g\<in>set (fst (splitHashGroupsSimplified (groupByHashSimplified env s imgs))).
         stype g = ''exact'' \<and> ssimilarity g = 1 \<and> sconfidence g = ''absolute''
         \<and> hashedImage env (imgs ! i) c \<in> set (simages g)
         \<and> hashedImage env (imgs ! j) c \<in> set (simages g)))
   \<and> (\<forall>k grp x y. (k, grp) \<in> set (groupByHashSimplified env s imgs) \<and> x \<in> set grp \<and> y \<in> set grp
        \<longrightarrow> fileSize x = fileSize y)
   \<and> (\<forall>i j. i < j \<and> j < length imgs \<and> hash (imgs ! i) = hash (imgs ! j)
        \<and> analysisBackupFault cenv = None \<longrightarrow>
      (\<exists>groups g. detectDuplicates cfg cenv now imgs = Inr groups \<and> g \<in> set groups
         \<and> gtype g = ''exact'' \<and> gsimilarity g = 1 \<and> gconfidence g = ''absolute''
         \<and> path (imgs ! i) \<in> path ` set (images g) \<and> path (imgs ! j) \<in> path ` set (images g)))"
proof (intro conjI allI impI)
  fix i j c
  assume "i < j \<and> j < length imgs \<and> files s (path (imgs ! i)) = Some c
      \<and> files s (path (imgs ! j)) = Some c"
  then show "\<exists>g\<in>set (fst (splitHashGroupsSimplified (groupByHashSimplified env s imgs))).
      stype g = ''exact'' \<and> ssimilarity g = 1 \<and> sconfidence g = ''absolute''
      \<and> hashedImage env (imgs ! i) c \<in> set (simages g)
      \<and> hashedImage env (imgs ! j) c \<in> set (simages g)"
    using simplified_groups_identical_files [of i j imgs s c env] by blast
next
  fix k grp x y
  assume "(k, grp) \<in> set (groupByHashSimplified env s imgs) \<and> x \<in> set grp \<and> y \<in> set grp"
  then show "fileSize x = fileSize y"
    using simplified_group_sizes [of k grp env s imgs x y] by blast
next
  fix i j
  assume "i < j \<and> j < length imgs \<and> hash (imgs ! i) = hash (imgs ! j)
      \<and> analysisBackupFault cenv = None"
  then show "\<exists>groups g. detectDuplicates cfg cenv now imgs = Inr groups \<and> g \<in> set groups
      \<and> gtype g = ''exact'' \<and> gsimilarity g = 1 \<and> gconfidence g = ''absolute''
      \<and> path (imgs ! i) \<in> path ` set (images g) \<and> path (imgs ! j) \<in> path ` set (images g)"
    using enterprise_groups_equal_digests [of i j imgs cenv cfg now] by blast
qed

text \<open>Three files, two of them with the same bytes.\<close>

theorem exact_grouping_keys_witness:
  "fst (splitHashGroupsSimplified (groupByHashSimplified quietSys sampleDisk [photoA, photoB, photoC]))
     = [exactGroupSimplified
          [hashedImage quietSys photoA [1, 2, 3], hashedImage quietSys photoB [1, 2, 3]]]
   \<and> fileSize (hashedImage quietSys photoA [1, 2, 3]) = fileSize (hashedImage quietSys photoB [1, 2, 3])"
proof -
  have m: "(combinedHash quietSys [1, 2, 3],
       [hashedImage quietSys photoA [1, 2, 3], hashedImage quietSys photoB [1, 2, 3]])
      \<in> set (groupByHashSimplified quietSys sampleDisk [photoA, photoB, photoC])"
    by (simp add: sample_grouping)
  have "fileSize (hashedImage quietSys photoA [1, 2, 3]) = fileSize (hashedImage quietSys photoB [1, 2, 3])"
    using exact_grouping_keys [of "[photoA, photoB, photoC]" sampleDisk quietSys offlineEnv
        placeholderConfig rankingTime] m
    by (metis list.set_intros(1) list.set_intros(2))
  then show ?thesis by (simp add: sample_grouping)
qed

text \<open>
  C7 as stated fails in the detector that the application runs: two records with one
  hash and different byte sizes are placed in the same exact group.
\<close>

theorem equal_digest_groups_sizes_apart:
  "detectDuplicates placeholderConfig offlineEnv rankingTime [photoA, photoD] = Inr [mixedGroup]
   \<and> gtype mixedGroup = ''exact''
   \<and> map size_bytes (images mixedGroup) = [2000000, 900000]"
proof -
  have h: "hash photoA = ''d41d8cd9''" "hash photoD = ''d41d8cd9''"
    by (simp_all add: photoA_def photoD_def scanned_def)
  have nr: "\<not> recommended photoA" "\<not> recommended photoD"
    by (simp_all add: photoA_def photoD_def scanned_def)
  have sz: "size_bytes photoA = 2000000" "size_bytes photoD = 900000"
    by (simp_all add: photoA_def photoD_def scanned_def)
  have "detectDuplicates placeholderConfig offlineEnv rankingTime [photoA, photoD] = Inr [mixedGroup]"
    by (simp add: detectDuplicates_def offlineEnv_def groupByHash_def h exactGroup_def
        rankGroup_def verifyGroup_def qA qD scoreOf_def mixedGroup_def nr Let_def)
  then show ?thesis by (simp add: mixedGroup_def sz)
qed

end
